theory Spec2Isabelle
  imports Main "HOL-Library.Word" "HOL-Library.Char_ord" "HOL-Library.List_Lexorder"
begin

unbundle bit_operations_syntax

section \<open>Constants of the L2D geodata format (l2d\_parser.py)\<close>

definition BLOCK_CELLS_X :: int where "BLOCK_CELLS_X = 8"
definition BLOCK_CELLS_Y :: int where "BLOCK_CELLS_Y = 8"
definition BLOCK_CELLS :: int where "BLOCK_CELLS = BLOCK_CELLS_X * BLOCK_CELLS_Y"
definition REGION_BLOCKS_X :: int where "REGION_BLOCKS_X = 256"
definition REGION_BLOCKS_Y :: int where "REGION_BLOCKS_Y = 256"
definition REGION_BLOCKS :: int where "REGION_BLOCKS = REGION_BLOCKS_X * REGION_BLOCKS_Y"
definition REGION_CELLS_X :: int where "REGION_CELLS_X = REGION_BLOCKS_X * BLOCK_CELLS_X"
definition REGION_CELLS_Y :: int where "REGION_CELLS_Y = REGION_BLOCKS_Y * BLOCK_CELLS_Y"

definition TYPE_FLAT :: "8 word" where "TYPE_FLAT = 0xD0"
definition TYPE_COMPLEX :: "8 word" where "TYPE_COMPLEX = 0xD1"
definition TYPE_MULTILAYER :: "8 word" where "TYPE_MULTILAYER = 0xD2"

definition NSWE_ALL :: int where "NSWE_ALL = 0x0F"
definition NSWE_ALL_L2D :: int where "NSWE_ALL_L2D = 0xFF"

named_theorems l2d_consts \<open>numeric values of the format constants\<close>

lemmas geo_const_values [l2d_consts] =
  BLOCK_CELLS_X_def BLOCK_CELLS_Y_def BLOCK_CELLS_def
  REGION_BLOCKS_X_def REGION_BLOCKS_Y_def REGION_BLOCKS_def
  REGION_CELLS_X_def REGION_CELLS_Y_def
  NSWE_ALL_def NSWE_ALL_L2D_def

section \<open>Coordinate conversion (l2d\_parser.py)\<close>

text \<open>
  Python integers are unbounded, so world, region and cell coordinates are \<open>int\<close>;
  Python's \<open>//\<close> and \<open>%\<close> round towards minus infinity, as \<open>div\<close> and \<open>mod\<close> on
  \<open>int\<close> do.
\<close>

definition region_to_world_coords :: "int \<Rightarrow> int \<Rightarrow> int \<Rightarrow> int \<Rightarrow> int \<times> int" where
  "region_to_world_coords region_x region_y cell_x cell_y =
     (let world_x = ((region_x - 11) * REGION_CELLS_X + cell_x) * 16 + - 327680;
          world_y = ((region_y - 10) * REGION_CELLS_Y + cell_y) * 16 + - 262144
      in (world_x, world_y))"

definition world_to_region_coords :: "int \<Rightarrow> int \<Rightarrow> int \<times> int \<times> int \<times> int" where
  "world_to_region_coords world_x world_y =
     (let geo_x = (world_x + 327680) div 16;
          geo_y = (world_y + 262144) div 16;
          region_x = geo_x div REGION_CELLS_X + 11;
          region_y = geo_y div REGION_CELLS_Y + 10;
          cell_x = geo_x mod REGION_CELLS_X;
          cell_y = geo_y mod REGION_CELLS_Y
      in (region_x, region_y, cell_x, cell_y))"

section \<open>Python failures as values\<close>

text \<open>
  Every exception the modelled code can raise is a value of \<open>py_error\<close>; a function
  that can raise returns \<open>py_error + 'a\<close> with \<open>Inl\<close> for the exception.
  \<open>StructError\<close> is \<open>struct.error\<close>.
\<close>

datatype py_error = IndexError | KeyError | StructError | ValueError | AttributeError

text \<open>
  Python list indexing \<open>xs[i]\<close>: an index from \<open>-len(xs)\<close> to \<open>-1\<close> counts from
  the end, any index outside \<open>[-len(xs), len(xs))\<close> raises IndexError.
\<close>

definition py_index :: "'a list \<Rightarrow> int \<Rightarrow> py_error + 'a" where
  "py_index xs i =
     (if 0 \<le> i \<and> i < int (length xs) then Inr (xs ! nat i)
      else if i < 0 \<and> - int (length xs) \<le> i then Inr (xs ! nat (int (length xs) + i))
      else Inl IndexError)"

text \<open>Python item assignment \<open>xs[i] = v\<close>, returning the updated list.\<close>

definition py_assign :: "'a list \<Rightarrow> int \<Rightarrow> 'a \<Rightarrow> py_error + 'a list" where
  "py_assign xs i v =
     (if 0 \<le> i \<and> i < int (length xs) then Inr (xs[nat i := v])
      else if i < 0 \<and> - int (length xs) \<le> i then Inr (xs[nat (int (length xs) + i) := v])
      else Inl IndexError)"

section \<open>Data model (l2d\_parser.py)\<close>

text \<open>
  The dataclasses \<open>Cell\<close> and \<open>GeoRegion\<close> are records. The three block classes are
  told apart with \<open>isinstance\<close> everywhere, so \<open>Block\<close> is a datatype with one
  constructor per class; the \<open>block_type\<close> field always has the class's default value
  and is not stored.
\<close>

record Cell =
  height :: int
  nswe :: int

datatype Block =
    BlockFlat int
  | BlockComplex "Cell list"
  | BlockMultilayer "Cell list list"

record GeoRegion =
  region_x :: int
  region_y :: int
  blocks :: "Block list"

section \<open>Reading bytes\<close>

text \<open>
  The file content is a list of bytes and \<open>pos\<close> an offset into it. \<open>data[pos]\<close>
  raises IndexError past the end; \<open>struct.unpack_from("<h", data, pos)\<close> raises
  \<open>struct.error\<close> unless two bytes are left, and reads them as a little-endian
  two's-complement number.
\<close>

definition byte_at :: "8 word list \<Rightarrow> nat \<Rightarrow> py_error + 8 word" where
  "byte_at data pos = (if pos < length data then Inr (data ! pos) else Inl IndexError)"

definition unpack_h :: "8 word list \<Rightarrow> nat \<Rightarrow> py_error + int" where
  "unpack_h data pos =
     (if pos + 2 \<le> length data
      then Inr (sint (word_cat (data ! (pos + 1)) (data ! pos) :: 16 word))
      else Inl StructError)"

text \<open>
  \<open>struct.pack("<h", h)\<close> raises \<open>struct.error\<close> outside the signed 16-bit range.
\<close>

definition pack_h :: "int \<Rightarrow> py_error + 8 word list" where
  "pack_h h =
     (if - 32768 \<le> h \<and> h \<le> 32767
      then Inr [word_of_int h, word_of_int (h div 256)]
      else Inl StructError)"

section \<open>parse\_l2d\<close>

text \<open>One \<open>(nswe, height)\<close> triple: the body of both cell loops.\<close>

definition parse_cell :: "8 word list \<Rightarrow> nat \<Rightarrow> py_error + Cell \<times> nat" where
  "parse_cell data pos =
     (case byte_at data pos of
        Inl e \<Rightarrow> Inl e
      | Inr n \<Rightarrow>
          (case unpack_h data (pos + 1) of
             Inl e \<Rightarrow> Inl e
           | Inr h \<Rightarrow> Inr (\<lparr>height = h, nswe = uint n\<rparr>, pos + 3)))"

text \<open>\<open>for _ in range(k)\<close> around one triple, appending to \<open>cells\<close> or \<open>layers\<close>.\<close>

primrec parse_cells :: "nat \<Rightarrow> 8 word list \<Rightarrow> nat \<Rightarrow> py_error + Cell list \<times> nat" where
  "parse_cells 0 data pos = Inr ([], pos)"
| "parse_cells (Suc k) data pos =
     (case parse_cell data pos of
        Inl e \<Rightarrow> Inl e
      | Inr (c, pos1) \<Rightarrow>
          (case parse_cells k data pos1 of
             Inl e \<Rightarrow> Inl e
           | Inr (cs, pos2) \<Rightarrow> Inr (c # cs, pos2)))"

text \<open>One cell of a Multilayer block: the layer count, then that many triples.\<close>

definition parse_layers :: "8 word list \<Rightarrow> nat \<Rightarrow> py_error + Cell list \<times> nat" where
  "parse_layers data pos =
     (case byte_at data pos of
        Inl e \<Rightarrow> Inl e
      | Inr layer_count \<Rightarrow> parse_cells (unat layer_count) data (pos + 1))"

primrec parse_cell_layers ::
  "nat \<Rightarrow> 8 word list \<Rightarrow> nat \<Rightarrow> py_error + Cell list list \<times> nat" where
  "parse_cell_layers 0 data pos = Inr ([], pos)"
| "parse_cell_layers (Suc k) data pos =
     (case parse_layers data pos of
        Inl e \<Rightarrow> Inl e
      | Inr (layers, pos1) \<Rightarrow>
          (case parse_cell_layers k data pos1 of
             Inl e \<Rightarrow> Inl e
           | Inr (ls, pos2) \<Rightarrow> Inr (layers # ls, pos2)))"

text \<open>The body of the loop over the blocks: the type byte, then the block.\<close>

definition parse_block :: "8 word list \<Rightarrow> nat \<Rightarrow> py_error + Block \<times> nat" where
  "parse_block data pos =
     (case byte_at data pos of
        Inl e \<Rightarrow> Inl e
      | Inr block_type \<Rightarrow>
          if block_type = TYPE_FLAT then
            (case unpack_h data (pos + 1) of
               Inl e \<Rightarrow> Inl e
             | Inr h \<Rightarrow> Inr (BlockFlat h, pos + 1 + 2))
          else if block_type = TYPE_COMPLEX then
            (case parse_cells (nat BLOCK_CELLS) data (pos + 1) of
               Inl e \<Rightarrow> Inl e
             | Inr (cells, pos1) \<Rightarrow> Inr (BlockComplex cells, pos1))
          else if block_type = TYPE_MULTILAYER then
            (case parse_cell_layers (nat BLOCK_CELLS) data (pos + 1) of
               Inl e \<Rightarrow> Inl e
             | Inr (cell_layers, pos1) \<Rightarrow> Inr (BlockMultilayer cell_layers, pos1))
          else Inl ValueError)"

primrec parse_blocks :: "nat \<Rightarrow> 8 word list \<Rightarrow> nat \<Rightarrow> py_error + Block list \<times> nat" where
  "parse_blocks 0 data pos = Inr ([], pos)"
| "parse_blocks (Suc k) data pos =
     (case parse_block data pos of
        Inl e \<Rightarrow> Inl e
      | Inr (b, pos1) \<Rightarrow>
          (case parse_blocks k data pos1 of
             Inl e \<Rightarrow> Inl e
           | Inr (bs, pos2) \<Rightarrow> Inr (b # bs, pos2)))"

text \<open>
  \<open>parse_l2d\<close> takes the content of the file and the two region numbers, which the
  source reads out of the file name (\<open>(0, 0)\<close> when the name does not hold two numbers).
  The loop runs \<open>REGION_BLOCKS\<close> times from offset 0; the offset it ends at is dropped.
\<close>

definition parse_l2d :: "int \<Rightarrow> int \<Rightarrow> 8 word list \<Rightarrow> py_error + GeoRegion" where
  "parse_l2d rx ry data =
     (case parse_blocks (nat REGION_BLOCKS) data 0 of
        Inl e \<Rightarrow> Inl e
      | Inr (bs, pos) \<Rightarrow> Inr \<lparr>region_x = rx, region_y = ry, blocks = bs\<rparr>)"

text \<open>The offset at which the loop of \<open>parse_l2d\<close> stops, when it does not raise.\<close>

definition l2d_end_pos :: "8 word list \<Rightarrow> nat option" where
  "l2d_end_pos data =
     (case parse_blocks (nat REGION_BLOCKS) data 0 of
        Inl e \<Rightarrow> None
      | Inr (bs, pos) \<Rightarrow> Some pos)"

section \<open>write\_l2d\<close>

text \<open>
  \<open>bytearray.append\<close> raises ValueError for a value outside \<open>range(256)\<close>:
  \<open>cell.nswe & 0xFF\<close> never is, \<open>len(layers)\<close> can be.
\<close>

definition write_cell :: "Cell \<Rightarrow> py_error + 8 word list" where
  "write_cell c =
     (case pack_h (height c) of
        Inl e \<Rightarrow> Inl e
      | Inr hb \<Rightarrow> Inr (word_of_int (nswe c AND 0xFF) # hb))"

primrec write_cells :: "Cell list \<Rightarrow> py_error + 8 word list" where
  "write_cells [] = Inr []"
| "write_cells (c # cs) =
     (case write_cell c of
        Inl e \<Rightarrow> Inl e
      | Inr b \<Rightarrow> (case write_cells cs of Inl e \<Rightarrow> Inl e | Inr bs \<Rightarrow> Inr (b @ bs)))"

definition write_layers :: "Cell list \<Rightarrow> py_error + 8 word list" where
  "write_layers layers =
     (if length layers < 256
      then (case write_cells layers of
              Inl e \<Rightarrow> Inl e
            | Inr bs \<Rightarrow> Inr (of_nat (length layers) # bs))
      else Inl ValueError)"

primrec write_cell_layers :: "Cell list list \<Rightarrow> py_error + 8 word list" where
  "write_cell_layers [] = Inr []"
| "write_cell_layers (layers # ls) =
     (case write_layers layers of
        Inl e \<Rightarrow> Inl e
      | Inr b \<Rightarrow> (case write_cell_layers ls of Inl e \<Rightarrow> Inl e | Inr bs \<Rightarrow> Inr (b @ bs)))"

fun write_block :: "Block \<Rightarrow> py_error + 8 word list" where
  "write_block (BlockFlat h) =
     (case pack_h h of Inl e \<Rightarrow> Inl e | Inr hb \<Rightarrow> Inr (TYPE_FLAT # hb))"
| "write_block (BlockComplex cells) =
     (case write_cells cells of Inl e \<Rightarrow> Inl e | Inr bs \<Rightarrow> Inr (TYPE_COMPLEX # bs))"
| "write_block (BlockMultilayer cell_layers) =
     (case write_cell_layers cell_layers of
        Inl e \<Rightarrow> Inl e
      | Inr bs \<Rightarrow> Inr (TYPE_MULTILAYER # bs))"

primrec write_blocks :: "Block list \<Rightarrow> py_error + 8 word list" where
  "write_blocks [] = Inr []"
| "write_blocks (b # bs) =
     (case write_block b of
        Inl e \<Rightarrow> Inl e
      | Inr out \<Rightarrow> (case write_blocks bs of Inl e \<Rightarrow> Inl e | Inr rest \<Rightarrow> Inr (out @ rest)))"

text \<open>The result is the byte string handed to \<open>filepath.write_bytes\<close>.\<close>

definition write_l2d :: "GeoRegion \<Rightarrow> py_error + 8 word list" where
  "write_l2d region = write_blocks (blocks region)"

section \<open>Random access (l2d\_parser.py)\<close>

text \<open>
  \<open>get_cell\<close> and \<open>get_layers\<close> of the three block classes, by case on the class.
  Flat and Complex blocks ignore \<open>layer\<close>.
\<close>

fun block_get_cell :: "Block \<Rightarrow> int \<Rightarrow> int \<Rightarrow> int \<Rightarrow> py_error + Cell" where
  "block_get_cell (BlockFlat h) x y layer = Inr \<lparr>height = h, nswe = NSWE_ALL_L2D\<rparr>"
| "block_get_cell (BlockComplex cells) x y layer = py_index cells (x * BLOCK_CELLS_Y + y)"
| "block_get_cell (BlockMultilayer cell_layers) x y layer =
     (case py_index cell_layers (x * BLOCK_CELLS_Y + y) of
        Inl e \<Rightarrow> Inl e
      | Inr layers \<Rightarrow>
          if layer < int (length layers) then py_index layers layer else py_index layers 0)"

fun block_get_layers :: "Block \<Rightarrow> int \<Rightarrow> int \<Rightarrow> py_error + Cell list" where
  "block_get_layers (BlockFlat h) x y =
     (case block_get_cell (BlockFlat h) x y 0 of Inl e \<Rightarrow> Inl e | Inr c \<Rightarrow> Inr [c])"
| "block_get_layers (BlockComplex cells) x y =
     (case block_get_cell (BlockComplex cells) x y 0 of Inl e \<Rightarrow> Inl e | Inr c \<Rightarrow> Inr [c])"
| "block_get_layers (BlockMultilayer cell_layers) x y =
     py_index cell_layers (x * BLOCK_CELLS_Y + y)"

text \<open>The methods of \<open>GeoRegion\<close>.\<close>

definition get_block :: "GeoRegion \<Rightarrow> int \<Rightarrow> int \<Rightarrow> py_error + Block" where
  "get_block region bx by' = py_index (blocks region) (bx * REGION_BLOCKS_Y + by')"

definition get_cell :: "GeoRegion \<Rightarrow> int \<Rightarrow> int \<Rightarrow> int \<Rightarrow> py_error + Cell" where
  "get_cell region cx cy layer =
     (let bx = cx div BLOCK_CELLS_X;
          by' = cy div BLOCK_CELLS_Y;
          lx = cx mod BLOCK_CELLS_X;
          ly = cy mod BLOCK_CELLS_Y
      in case get_block region bx by' of
           Inl e \<Rightarrow> Inl e
         | Inr block \<Rightarrow> block_get_cell block lx ly layer)"

definition get_layers :: "GeoRegion \<Rightarrow> int \<Rightarrow> int \<Rightarrow> py_error + Cell list" where
  "get_layers region cx cy =
     (let bx = cx div BLOCK_CELLS_X;
          by' = cy div BLOCK_CELLS_Y;
          lx = cx mod BLOCK_CELLS_X;
          ly = cy mod BLOCK_CELLS_Y
      in case get_block region bx by' of
           Inl e \<Rightarrow> Inl e
         | Inr block \<Rightarrow> block_get_layers block lx ly)"

text \<open>\<open>set_cell\<close> of Complex and Multilayer blocks, returning the updated content.\<close>

definition complex_set_cell :: "Cell list \<Rightarrow> int \<Rightarrow> int \<Rightarrow> int \<Rightarrow> int \<Rightarrow> py_error + Cell list" where
  "complex_set_cell cells x y h n =
     py_assign cells (x * BLOCK_CELLS_Y + y) \<lparr>height = h, nswe = n\<rparr>"

definition multilayer_set_cell ::
  "Cell list list \<Rightarrow> int \<Rightarrow> int \<Rightarrow> int \<Rightarrow> int \<Rightarrow> int \<Rightarrow> py_error + Cell list list" where
  "multilayer_set_cell cell_layers x y layer h n =
     (case py_index cell_layers (x * BLOCK_CELLS_Y + y) of
        Inl e \<Rightarrow> Inl e
      | Inr layers \<Rightarrow>
          (case py_assign layers layer \<lparr>height = h, nswe = n\<rparr> of
             Inl e \<Rightarrow> Inl e
           | Inr layers' \<Rightarrow> py_assign cell_layers (x * BLOCK_CELLS_Y + y) layers'))"

text \<open>
  What \<open>parse_l2d\<close> builds: 65536 blocks, 64 cells in a Complex block, 64 stacks in a
  Multilayer block.
\<close>

fun block_shape :: "Block \<Rightarrow> bool" where
  "block_shape (BlockFlat h) = True"
| "block_shape (BlockComplex cells) = (length cells = 64)"
| "block_shape (BlockMultilayer cell_layers) = (length cell_layers = 64)"

definition region_shape :: "GeoRegion \<Rightarrow> bool" where
  "region_shape region \<longleftrightarrow>
     length (blocks region) = 65536 \<and> list_all block_shape (blocks region)"

section \<open>Loops over a list\<close>

text \<open>
  \<open>for x in xs: body\<close> where the body updates a state and may raise: the state is
  passed from one iteration to the next and the first exception ends the loop.
\<close>

primrec for_each :: "'a list \<Rightarrow> ('a \<Rightarrow> 's \<Rightarrow> py_error + 's) \<Rightarrow> 's \<Rightarrow> py_error + 's" where
  "for_each [] body s = Inr s"
| "for_each (x # xs) body s =
     (case body x s of Inl e \<Rightarrow> Inl e | Inr s' \<Rightarrow> for_each xs body s')"

section \<open>ScanWorker.\_build\_region (scan\_worker.py)\<close>

text \<open>
  The two dictionaries are maps from \<open>(bx, by)\<close> to a number; \<open>d.get(k, v)\<close> is the
  value at \<open>k\<close> or the default. The loop body reads the scanned NSWE value into \<open>n\<close>
  and appends a Flat block that holds the height only.
\<close>

definition dict_get :: "('k \<rightharpoonup> 'v) \<Rightarrow> 'k \<Rightarrow> 'v \<Rightarrow> 'v" where
  "dict_get d k dflt = (case d k of None \<Rightarrow> dflt | Some v \<Rightarrow> v)"

definition build_region ::
  "int \<Rightarrow> int \<Rightarrow> (int \<times> int \<rightharpoonup> int) \<Rightarrow> (int \<times> int \<rightharpoonup> int) \<Rightarrow> GeoRegion" where
  "build_region rx ry heights nswe_data =
     \<lparr>region_x = rx, region_y = ry,
      blocks = concat (map (\<lambda>bx. map (\<lambda>by'.
                 let h = dict_get heights (bx, by') 0;
                     n = dict_get nswe_data (bx, by') 0xFF
                 in BlockFlat h) [0..REGION_BLOCKS_Y - 1]) [0..REGION_BLOCKS_X - 1])\<rparr>"

section \<open>Little-endian 32-bit words (struct format \<open>"<I"\<close>)\<close>

text \<open>
  \<open>struct.unpack_from("<I", data, offset)\<close> returns a Python integer in
  \<open>[0, 2\<^sup>3\<^sup>2)\<close>; \<open>struct.pack_into("<I", data, offset, v)\<close> overwrites four bytes and
  raises \<open>struct.error\<close> when \<open>v\<close> is outside that range. Both accept a negative
  offset, counted from the end of the buffer, and raise \<open>struct.error\<close> when the four
  bytes do not lie inside the buffer.
\<close>

definition struct_offset :: "nat \<Rightarrow> int \<Rightarrow> py_error + nat" where
  "struct_offset len offset =
     (if 0 \<le> offset \<and> offset + 4 \<le> int len then Inr (nat offset)
      else if offset < 0 \<and> offset + 4 \<le> 0 \<and> 0 \<le> offset + int len then Inr (nat (offset + int len))
      else Inl StructError)"

definition le32 :: "8 word list \<Rightarrow> nat \<Rightarrow> int" where
  "le32 data p =
     uint (data ! p) + 256 * uint (data ! (p + 1)) + 65536 * uint (data ! (p + 2)) +
     16777216 * uint (data ! (p + 3))"

definition unpack_from_I :: "8 word list \<Rightarrow> int \<Rightarrow> py_error + int" where
  "unpack_from_I data offset =
     (case struct_offset (length data) offset of
        Inl e \<Rightarrow> Inl e
      | Inr p \<Rightarrow> Inr (le32 data p))"

definition bytes_I :: "int \<Rightarrow> 8 word list" where
  "bytes_I v =
     [word_of_int v, word_of_int (v div 256), word_of_int (v div 65536),
      word_of_int (v div 16777216)]"

definition pack_into_I :: "8 word list \<Rightarrow> int \<Rightarrow> int \<Rightarrow> py_error + 8 word list" where
  "pack_into_I data offset v =
     (case struct_offset (length data) offset of
        Inl e \<Rightarrow> Inl e
      | Inr p \<Rightarrow>
          if 0 \<le> v \<and> v < 4294967296
          then Inr (take p data @ bytes_I v @ drop (p + 4) data)
          else Inl StructError)"

text \<open>\<open>range(start, stop, 4)\<close>.\<close>

definition range4 :: "int \<Rightarrow> int \<Rightarrow> int list" where
  "range4 start stop = map (\<lambda>k. start + 4 * int k) [0..<nat ((stop - start + 3) div 4)]"

section \<open>Game cipher (class GameCrypt, l2\_crypto.py)\<close>

text \<open>
  The two keys are bytearrays, so their elements and those of \<open>data\<close> are bytes and
  the masks \<open>& 0xFF\<close> of the source change nothing. \<open>_in_key\<close>, \<open>_out_key\<close> and
  \<open>_enabled\<close> lose their leading underscore.
\<close>

record GameCrypt =
  in_key :: "8 word list"
  out_key :: "8 word list"
  enabled :: bool

definition GameCrypt_init :: "8 word list \<Rightarrow> GameCrypt" where
  "GameCrypt_init key = \<lparr>in_key = key, out_key = key, enabled = False\<rparr>"

definition advance_key :: "8 word list \<Rightarrow> nat \<Rightarrow> py_error + 8 word list" where
  "advance_key key n =
     (case unpack_from_I key 8 of
        Inl e \<Rightarrow> Inl e
      | Inr old \<Rightarrow>
          let new = (old + int n) AND 0xFFFFFFFF
          in pack_into_I key 8 new)"

text \<open>
  The loop of \<open>decrypt\<close> from index \<open>i\<close> on, over the bytes not yet processed; the byte
  written at \<open>i\<close> is not read again, so the bytes still to come are those of the input.
\<close>

fun decrypt_loop :: "8 word list \<Rightarrow> nat \<Rightarrow> 8 word \<Rightarrow> 8 word list \<Rightarrow> py_error + 8 word list" where
  "decrypt_loop key i temp [] = Inr []"
| "decrypt_loop key i temp (b # bs) =
     (let temp2 = b
      in case py_index key (int (i AND 15)) of
           Inl e \<Rightarrow> Inl e
         | Inr k \<Rightarrow>
             (case decrypt_loop key (Suc i) temp2 bs of
                Inl e \<Rightarrow> Inl e
              | Inr rest \<Rightarrow> Inr ((temp2 XOR k XOR temp) # rest)))"

fun encrypt_loop :: "8 word list \<Rightarrow> nat \<Rightarrow> 8 word \<Rightarrow> 8 word list \<Rightarrow> py_error + 8 word list" where
  "encrypt_loop key i temp [] = Inr []"
| "encrypt_loop key i temp (b # bs) =
     (let temp2 = b
      in case py_index key (int (i AND 15)) of
           Inl e \<Rightarrow> Inl e
         | Inr k \<Rightarrow>
             (let temp' = temp2 XOR k XOR temp
              in case encrypt_loop key (Suc i) temp' bs of
                   Inl e \<Rightarrow> Inl e
                 | Inr rest \<Rightarrow> Inr (temp' # rest)))"

text \<open>Both methods return the new state of the object together with the buffer.\<close>

definition GameCrypt_decrypt :: "GameCrypt \<Rightarrow> 8 word list \<Rightarrow> py_error + GameCrypt \<times> 8 word list" where
  "GameCrypt_decrypt self data =
     (if \<not> enabled self then Inr (self, data)
      else
        case decrypt_loop (in_key self) 0 0 data of
          Inl e \<Rightarrow> Inl e
        | Inr out \<Rightarrow>
            (case advance_key (in_key self) (length data) of
               Inl e \<Rightarrow> Inl e
             | Inr key' \<Rightarrow> Inr (self\<lparr>in_key := key'\<rparr>, out)))"

definition GameCrypt_encrypt :: "GameCrypt \<Rightarrow> 8 word list \<Rightarrow> py_error + GameCrypt \<times> 8 word list" where
  "GameCrypt_encrypt self data =
     (if \<not> enabled self then Inr (self\<lparr>enabled := True\<rparr>, data)
      else
        case encrypt_loop (out_key self) 0 0 data of
          Inl e \<Rightarrow> Inl e
        | Inr out \<Rightarrow>
            (case advance_key (out_key self) (length data) of
               Inl e \<Rightarrow> Inl e
             | Inr key' \<Rightarrow> Inr (self\<lparr>out_key := key'\<rparr>, out)))"

text \<open>The counter of a key: bytes 8 to 11 as a little-endian number.\<close>

definition key_counter :: "8 word list \<Rightarrow> int" where
  "key_counter key = le32 key 8"

text \<open>
  One side encrypts a list of packet bodies one by one and the other side decrypts each
  result: the states of both sides after the last packet and the bodies that came out.
\<close>

fun exchange ::
  "GameCrypt \<Rightarrow> GameCrypt \<Rightarrow> 8 word list list \<Rightarrow>
     py_error + GameCrypt \<times> GameCrypt \<times> 8 word list list" where
  "exchange sender receiver [] = Inr (sender, receiver, [])"
| "exchange sender receiver (body # bodies) =
     (case GameCrypt_encrypt sender body of
        Inl e \<Rightarrow> Inl e
      | Inr (sender', wire) \<Rightarrow>
          (case GameCrypt_decrypt receiver wire of
             Inl e \<Rightarrow> Inl e
           | Inr (receiver', plain) \<Rightarrow>
               (case exchange sender' receiver' bodies of
                  Inl e \<Rightarrow> Inl e
                | Inr (s, r, plains) \<Rightarrow> Inr (s, r, plain # plains))))"

text \<open>
  Both sides are past the handshake and in step: both flags are set and the key the
  sender encrypts with is the 16-byte key the receiver decrypts with.
\<close>

definition in_step :: "GameCrypt \<Rightarrow> GameCrypt \<Rightarrow> bool" where
  "in_step sender receiver \<longleftrightarrow>
     enabled sender \<and> enabled receiver \<and> out_key sender = in_key receiver \<and>
     length (out_key sender) = 16"

section \<open>Login cipher (classes L2Blowfish and LoginCrypt, l2\_crypto.py)\<close>

text \<open>
  The Blowfish cipher object comes from the Crypto library. It is a parameter here: the
  function \<open>E\<close> that the library applies to one 8-byte block under the key in use. In ECB
  mode \<open>encrypt\<close> raises ValueError for data whose length is not a multiple of the block
  size; \<open>L2Blowfish.encrypt\<close> hands it one slice \<open>data[i:i+8]\<close> at a time, which is never
  empty.
\<close>

definition cipher_encrypt :: "(8 word list \<Rightarrow> 8 word list) \<Rightarrow> 8 word list \<Rightarrow> py_error + 8 word list" where
  "cipher_encrypt E block = (if length block mod 8 \<noteq> 0 then Inl ValueError else Inr (E block))"

text \<open>
  \<open>_swap_endian_block\<close>: two slice assignments, each replacing four bytes (fewer at the
  end of a short buffer) by their reverse.
\<close>

definition reverse_slice :: "8 word list \<Rightarrow> nat \<Rightarrow> 8 word list" where
  "reverse_slice data offset =
     take offset data @ rev (take 4 (drop offset data)) @ drop (offset + 4) data"

definition swap_endian_block :: "8 word list \<Rightarrow> nat \<Rightarrow> 8 word list" where
  "swap_endian_block data offset = reverse_slice (reverse_slice data offset) (offset + 4)"

text \<open>
  \<open>L2Blowfish.encrypt\<close> as \<open>LoginCrypt\<close> calls it, with \<open>offset = 0\<close> and the whole buffer
  as length. The indices \<open>range(0, len(data), 8)\<close> are fixed before the loop starts; the
  body replaces the slice \<open>data[i:i+8]\<close> by the encrypted block.
\<close>

definition L2Blowfish_block ::
  "(8 word list \<Rightarrow> 8 word list) \<Rightarrow> nat \<Rightarrow> 8 word list \<Rightarrow> py_error + 8 word list" where
  "L2Blowfish_block E i data =
     (let block = swap_endian_block (take 8 (drop i data)) 0
      in case cipher_encrypt E block of
           Inl e \<Rightarrow> Inl e
         | Inr encrypted \<Rightarrow>
             Inr (take i data @ swap_endian_block encrypted 0 @ drop (i + 8) data))"

definition L2Blowfish_encrypt ::
  "(8 word list \<Rightarrow> 8 word list) \<Rightarrow> 8 word list \<Rightarrow> py_error + 8 word list" where
  "L2Blowfish_encrypt E data =
     for_each (map (\<lambda>k. 8 * k) [0..<(length data + 7) div 8]) (L2Blowfish_block E) data"

text \<open>\<open>append_checksum\<close>: the XOR of the words before the last four bytes, written there.\<close>

definition append_checksum :: "8 word list \<Rightarrow> int \<Rightarrow> int \<Rightarrow> py_error + 8 word list" where
  "append_checksum data offset sz =
     (let count = sz - 4
      in case for_each (range4 offset (offset + count))
                (\<lambda>i chk. case unpack_from_I data i of
                             Inl e \<Rightarrow> Inl e
                           | Inr w \<Rightarrow> Inr (chk XOR w)) 0 of
           Inl e \<Rightarrow> Inl e
         | Inr chk \<Rightarrow> pack_into_I data (offset + count) (chk AND 0xFFFFFFFF))"

text \<open>
  \<open>LoginCrypt.encrypt\<close>. The object's \<open>_dynamic_bf\<close> is \<open>None\<close> until \<open>set_key\<close> has run,
  and calling \<open>encrypt\<close> on \<open>None\<close> raises AttributeError.
\<close>

definition LoginCrypt_encrypt ::
  "(8 word list \<Rightarrow> 8 word list) option \<Rightarrow> 8 word list \<Rightarrow> py_error + 8 word list" where
  "LoginCrypt_encrypt dynamic_bf data =
     (let len = int (length data);
          pad_size = (if len mod 8 \<noteq> 0 then 8 - len mod 8 else 0);
          total_pad = pad_size + 4;
          total_pad = (if (len + total_pad) mod 8 \<noteq> 0
                       then total_pad + (8 - (len + total_pad) mod 8) else total_pad);
          data = data @ replicate (nat total_pad) 0
      in case append_checksum data 0 (int (length data)) of
           Inl e \<Rightarrow> Inl e
         | Inr data \<Rightarrow>
             (case dynamic_bf of
                None \<Rightarrow> Inl AttributeError
              | Some E \<Rightarrow> L2Blowfish_encrypt E data))"

text \<open>
  The XOR of the little-endian 32-bit words at offsets \<open>0, 4, \<dots>, 4 (m - 1)\<close>.
\<close>

definition xor_words :: "8 word list \<Rightarrow> nat \<Rightarrow> int" where
  "xor_words data m = fold (\<lambda>k chk. chk XOR le32 data (4 * k)) [0..<m] 0"

text \<open>
  The frame that \<open>LoginCrypt.encrypt\<close> encrypts, written out: the payload, zero bytes up to
  four bytes before the frame length, and the checksum of all that in the last four
  bytes. \<open>l2_block\<close> is what \<open>L2Blowfish.encrypt\<close> puts in the place of one 8-byte block.
\<close>

definition frame_length :: "nat \<Rightarrow> nat" where
  "frame_length L = (L + 7) div 8 * 8 + 8"

definition login_frame :: "8 word list \<Rightarrow> 8 word list" where
  "login_frame payload =
     (let n = frame_length (length payload);
          padded = payload @ replicate (n - 4 - length payload) 0
      in padded @ bytes_I (xor_words padded ((n - 4) div 4)))"

definition l2_block :: "(8 word list \<Rightarrow> 8 word list) \<Rightarrow> 8 word list \<Rightarrow> 8 word list" where
  "l2_block E block = swap_endian_block (E (swap_endian_block block 0)) 0"

section \<open>Scan progress (scan\_state.py)\<close>

text \<open>
  \<open>RegionStatus\<close> is the enum of the source. \<open>RegionState\<close> is the dataclass, with the
  two coordinates renamed (\<open>GeoRegion\<close> has fields of the same names). The time stamps
  are readings of \<open>time.time()\<close>: nothing is computed from them, so their type is a
  parameter \<open>'t\<close> and each reading is an argument of the function that takes it.
\<close>

datatype RegionStatus = PENDING | SCANNING | COMPLETE | ERROR

fun status_value :: "RegionStatus \<Rightarrow> string" where
  "status_value PENDING = ''pending''"
| "status_value SCANNING = ''scanning''"
| "status_value COMPLETE = ''complete''"
| "status_value ERROR = ''error''"

record 't RegionState =
  rs_region_x :: int
  rs_region_y :: int
  status :: RegionStatus
  total_cells :: int
  scanned_cells :: int
  assigned_worker :: string
  started_at :: 't
  completed_at :: 't
  error :: string

text \<open>\<open>str(n)\<close> for an integer, as the f-string of \<open>RegionState.key\<close> formats it.\<close>

function nat_str :: "nat \<Rightarrow> string" where
  "nat_str n =
     (if n < 10 then [char_of (48 + n)] else nat_str (n div 10) @ [char_of (48 + n mod 10)])"
  by pat_completeness auto
termination
  by (relation "measure id") auto

declare nat_str.simps [simp del]

definition int_str :: "int \<Rightarrow> string" where
  "int_str i = (if i < 0 then CHR ''-'' # nat_str (nat (- i)) else nat_str (nat i))"

definition RegionState_key :: "'t RegionState \<Rightarrow> string" where
  "RegionState_key r = int_str (rs_region_x r) @ ''_'' @ int_str (rs_region_y r)"

text \<open>
  The part of \<open>ScanProgress\<close> that \<open>get_next_region\<close> touches: the dictionary
  \<open>_regions\<close> as a list of key and value with distinct keys, the rows of the SQLite table
  \<open>regions\<close> by primary key, and \<open>_event_log\<close>. The lock makes each call one step; the
  queues of the SSE subscribers and failures of SQLite are left out.
\<close>

record 't Event =
  event_type :: string
  event_region :: string
  event_status :: string
  event_worker :: string
  event_timestamp :: 't

record 't ScanProgress =
  regions :: "(string \<times> 't RegionState) list"
  db_regions :: "string \<rightharpoonup> 't RegionState"
  event_log :: "'t Event list"

definition persist_region :: "'t RegionState \<Rightarrow> 't ScanProgress \<Rightarrow> 't ScanProgress" where
  "persist_region region self =
     self\<lparr>db_regions := (db_regions self)(RegionState_key region \<mapsto> region)\<rparr>"

definition push_event :: "'t Event \<Rightarrow> 't ScanProgress \<Rightarrow> 't ScanProgress" where
  "push_event event self =
     (let log = event_log self @ [event]
      in self\<lparr>event_log := (if length log > 500 then drop (length log - 500) log else log)\<rparr>)"

text \<open>
  The region object is changed in place, so the dictionary shows the change under the
  key that holds the object.
\<close>

definition store_region ::
  "string \<Rightarrow> 't RegionState \<Rightarrow> (string \<times> 't RegionState) list \<Rightarrow> (string \<times> 't RegionState) list" where
  "store_region k r rs = map (\<lambda>(k', r'). if k' = k then (k', r) else (k', r')) rs"

text \<open>
  The loop of \<open>get_next_region\<close> over the sorted keys. \<open>now\<close> is the clock reading stored
  in \<open>started_at\<close>, \<open>now'\<close> the one stored in the event.
\<close>

primrec claim_loop ::
  "string list \<Rightarrow> string \<Rightarrow> 't \<Rightarrow> 't \<Rightarrow> 't ScanProgress \<Rightarrow>
     py_error + 't ScanProgress \<times> 't RegionState option" where
  "claim_loop [] worker_name now now' self = Inr (self, None)"
| "claim_loop (k # keys) worker_name now now' self =
     (case map_of (regions self) k of
        None \<Rightarrow> Inl KeyError
      | Some region \<Rightarrow>
          if status region = PENDING then
            (let region' = region\<lparr>status := SCANNING, assigned_worker := worker_name,
                                  started_at := now\<rparr>;
                 self1 = self\<lparr>regions := store_region k region' (regions self)\<rparr>;
                 self2 = persist_region region' self1;
                 self3 = push_event
                   \<lparr>event_type = ''region_update'', event_region = k,
                    event_status = status_value (status region'),
                    event_worker = worker_name, event_timestamp = now'\<rparr> self2
             in Inr (self3, Some region'))
          else claim_loop keys worker_name now now' self)"

definition get_next_region ::
  "'t ScanProgress \<Rightarrow> string \<Rightarrow> 't \<Rightarrow> 't \<Rightarrow> py_error + 't ScanProgress \<times> 't RegionState option" where
  "get_next_region self worker_name now now' =
     claim_loop (sort (map fst (regions self))) worker_name now now' self"

text \<open>
  A sequence of calls, in the order in which they get the lock: each call is the name of
  the worker and its two clock readings. The result is the final state and what each
  call returned.
\<close>

fun run_calls ::
  "(string \<times> 't \<times> 't) list \<Rightarrow> 't ScanProgress \<Rightarrow>
     py_error + 't ScanProgress \<times> 't RegionState option list" where
  "run_calls [] self = Inr (self, [])"
| "run_calls ((worker_name, now, now') # calls) self =
     (case get_next_region self worker_name now now' of
        Inl e \<Rightarrow> Inl e
      | Inr (self1, result) \<Rightarrow>
          (case run_calls calls self1 of
             Inl e \<Rightarrow> Inl e
           | Inr (self2, results) \<Rightarrow> Inr (self2, result # results)))"

text \<open>
  The registry as \<open>add_region\<close> and \<open>_load_from_db\<close> build it: no key twice, and every
  region under the key made of its coordinates. \<open>pending_count\<close> is the number of
  PENDING regions.
\<close>

definition registry_ok :: "'t ScanProgress \<Rightarrow> bool" where
  "registry_ok self \<longleftrightarrow>
     distinct (map fst (regions self)) \<and>
     list_all (\<lambda>(k, r). k = RegionState_key r) (regions self)"

definition pending_count :: "'t ScanProgress \<Rightarrow> nat" where
  "pending_count self = length (filter (\<lambda>(k, r). status r = PENDING) (regions self))"

text \<open>The regions that a list of calls returned, without the calls that returned none.\<close>

fun claimed :: "'a option list \<Rightarrow> 'a list" where
  "claimed [] = []"
| "claimed (None # xs) = claimed xs"
| "claimed (Some r # xs) = r # claimed xs"

section \<open>Area unblock (cmd\_unblock in geodata\_tool.py, api\_unblock in app.py)\<close>

text \<open>
  Both functions run the same two nested loops over the region and count what they
  change; the state of the loops is the region and the counter. A block object is
  changed in place, so the region shows the changed block at the index it was read
  from (each block of a parsed region is an object of its own).
\<close>

definition put_block :: "GeoRegion \<Rightarrow> int \<Rightarrow> int \<Rightarrow> Block \<Rightarrow> GeoRegion" where
  "put_block region bx by' block =
     region\<lparr>blocks := (blocks region)[nat (bx * REGION_BLOCKS_Y + by') := block]\<rparr>"

text \<open>
  The body of the loop over \<open>enumerate(block.get_layers(lx, ly))\<close>. The list it walks
  is the stack inside the block, the same object that \<open>set_cell\<close> writes to, so the
  cell at \<open>layer_idx\<close> is read from the stack as it is now. The stack keeps its length,
  so the indices are those of the stack at the start.
\<close>

definition unblock_layer ::
  "int \<Rightarrow> int \<Rightarrow> nat \<Rightarrow> Cell list list \<times> int \<Rightarrow> py_error + Cell list list \<times> int" where
  "unblock_layer lx ly layer_idx st =
     (case st of (cell_layers, n) \<Rightarrow>
        (case block_get_layers (BlockMultilayer cell_layers) lx ly of
           Inl e \<Rightarrow> Inl e
         | Inr layers \<Rightarrow>
             (let cell = layers ! layer_idx
              in if nswe cell AND NSWE_ALL \<noteq> NSWE_ALL then
                   (case multilayer_set_cell cell_layers lx ly (int layer_idx) (height cell)
                           NSWE_ALL_L2D of
                      Inl e \<Rightarrow> Inl e
                    | Inr cell_layers' \<Rightarrow> Inr (cell_layers', n + 1))
                 else Inr (cell_layers, n))))"

text \<open>The body of the inner loop, for the cell \<open>(x, y) = (cx + dx, cy + dy)\<close>.\<close>

definition unblock_cell :: "int \<Rightarrow> int \<Rightarrow> GeoRegion \<times> int \<Rightarrow> py_error + GeoRegion \<times> int" where
  "unblock_cell x y st =
     (case st of (region, n) \<Rightarrow>
        if x < 0 \<or> y < 0 \<or> x \<ge> REGION_CELLS_X \<or> y \<ge> REGION_CELLS_Y then Inr st
        else
          (let bx = x div BLOCK_CELLS_X;
               by' = y div BLOCK_CELLS_Y;
               lx = x mod BLOCK_CELLS_X;
               ly = y mod BLOCK_CELLS_Y
           in case get_block region bx by' of
                Inl e \<Rightarrow> Inl e
              | Inr block \<Rightarrow>
                  (case block of
                     BlockFlat h \<Rightarrow> Inr st
                   | BlockComplex cells \<Rightarrow>
                       (case block_get_cell block lx ly 0 of
                          Inl e \<Rightarrow> Inl e
                        | Inr old \<Rightarrow>
                            if nswe old AND NSWE_ALL \<noteq> NSWE_ALL then
                              (case complex_set_cell cells lx ly (height old) NSWE_ALL_L2D of
                                 Inl e \<Rightarrow> Inl e
                               | Inr cells' \<Rightarrow>
                                   Inr (put_block region bx by' (BlockComplex cells'), n + 1))
                            else Inr st)
                   | BlockMultilayer cell_layers \<Rightarrow>
                       (case block_get_layers block lx ly of
                          Inl e \<Rightarrow> Inl e
                        | Inr layers \<Rightarrow>
                            (case for_each [0..<length layers] (unblock_layer lx ly)
                                    (cell_layers, n) of
                               Inl e \<Rightarrow> Inl e
                             | Inr (cell_layers', n') \<Rightarrow>
                                 Inr (put_block region bx by' (BlockMultilayer cell_layers'),
                                      n'))))))"

text \<open>
  The two loops over \<open>range(-radius, radius + 1)\<close>, from the parsed region and count 0 to
  the region that is written or kept and the count that is reported.
\<close>

definition unblock :: "GeoRegion \<Rightarrow> int \<Rightarrow> int \<Rightarrow> int \<Rightarrow> py_error + GeoRegion \<times> int" where
  "unblock region cx cy radius =
     for_each [- radius..radius]
       (\<lambda>dx. for_each [- radius..radius] (\<lambda>dy. unblock_cell (cx + dx) (cy + dy)))
       (region, 0)"

text \<open>
  What the sweep does to one layer, and what changes: a layer is blocked when its
  cardinal nibble is not \<open>0x0F\<close>; unblocking keeps the height and sets \<open>nswe\<close> to \<open>0xFF\<close>.
\<close>

definition blocked :: "Cell \<Rightarrow> bool" where
  "blocked c \<longleftrightarrow> nswe c AND NSWE_ALL \<noteq> NSWE_ALL"

definition unblocked :: "Cell \<Rightarrow> Cell" where
  "unblocked c = (if blocked c then \<lparr>height = height c, nswe = NSWE_ALL_L2D\<rparr> else c)"

text \<open>
  The cells that the loops visit inside the region, in the order of the visit, and the
  number of blocked layers of a cell.
\<close>

definition in_region :: "int \<times> int \<Rightarrow> bool" where
  "in_region p \<longleftrightarrow> 0 \<le> fst p \<and> fst p < 2048 \<and> 0 \<le> snd p \<and> snd p < 2048"

definition visited :: "int \<Rightarrow> int \<Rightarrow> int \<Rightarrow> (int \<times> int) list" where
  "visited cx cy radius =
     filter in_region
       (concat (map (\<lambda>dx. map (\<lambda>dy. (cx + dx, cy + dy)) [- radius..radius]) [- radius..radius]))"

definition blocked_layers :: "GeoRegion \<Rightarrow> int \<times> int \<Rightarrow> int" where
  "blocked_layers region p =
     (case get_layers region (fst p) (snd p) of
        Inl e \<Rightarrow> 0
      | Inr layers \<Rightarrow> int (length (filter blocked layers)))"

text \<open>Two blocks of the same class; two Flat blocks also of the same height.\<close>

fun same_class :: "Block \<Rightarrow> Block \<Rightarrow> bool" where
  "same_class (BlockFlat h) b = (b = BlockFlat h)"
| "same_class (BlockComplex cells) b = (case b of BlockComplex cells' \<Rightarrow> True | _ \<Rightarrow> False)"
| "same_class (BlockMultilayer cl) b = (case b of BlockMultilayer cl' \<Rightarrow> True | _ \<Rightarrow> False)"

text \<open>
  One visit written as a function on the block: the stack of layers of the cell with
  index \<open>j\<close> inside a block (one layer for Flat and Complex blocks), and the block after
  the visit of that cell.
\<close>

fun block_stack :: "Block \<Rightarrow> nat \<Rightarrow> Cell list" where
  "block_stack (BlockFlat h) j = [\<lparr>height = h, nswe = NSWE_ALL_L2D\<rparr>]"
| "block_stack (BlockComplex cells) j = [cells ! j]"
| "block_stack (BlockMultilayer cell_layers) j = cell_layers ! j"

fun unblock_block :: "Block \<Rightarrow> nat \<Rightarrow> Block" where
  "unblock_block (BlockFlat h) j = BlockFlat h"
| "unblock_block (BlockComplex cells) j = BlockComplex (cells[j := unblocked (cells ! j)])"
| "unblock_block (BlockMultilayer cell_layers) j =
     BlockMultilayer (cell_layers[j := map unblocked (cell_layers ! j)])"

definition block_of :: "int \<times> int \<Rightarrow> nat" where
  "block_of p = nat (fst p div 8 * 256 + snd p div 8)"

definition cell_of :: "int \<times> int \<Rightarrow> nat" where
  "cell_of p = nat (fst p mod 8 * 8 + snd p mod 8)"

definition cell_stack :: "GeoRegion \<Rightarrow> int \<times> int \<Rightarrow> Cell list" where
  "cell_stack region p = block_stack (blocks region ! block_of p) (cell_of p)"

text \<open>The region after the visit of one cell inside the region.\<close>

definition visit :: "GeoRegion \<Rightarrow> int \<times> int \<Rightarrow> GeoRegion" where
  "visit region p =
     region\<lparr>blocks := (blocks region)[block_of p :=
                unblock_block (blocks region ! block_of p) (cell_of p)]\<rparr>"

section \<open>Coordinate conversion: results\<close>

lemma geo_axis_roundtrip:
  fixes r c k :: int
  assumes "0 \<le> c" "c < 2048"
  shows "((r * 2048 + c) * 16 + - k + k) div 16 div 2048 = r"
    and "((r * 2048 + c) * 16 + - k + k) div 16 mod 2048 = c"
proof -
  have e: "((r * 2048 + c) * 16 + - k + k) div 16 = c + r * 2048"
    by simp
  show "((r * 2048 + c) * 16 + - k + k) div 16 div 2048 = r"
    unfolding e using assms by simp
  show "((r * 2048 + c) * 16 + - k + k) div 16 mod 2048 = c"
    unfolding e using assms by simp
qed

text \<open>
  C4. For all region coordinates and all cell coordinates in \<open>[0, 2048)\<close>, converting
  region and cell to world coordinates and back gives the region and cell again; the
  way back divides with floor division.
\<close>

theorem world_to_region_of_region_to_world:
  assumes "0 \<le> cx" "cx < 2048" "0 \<le> cy" "cy < 2048"
  shows "(case region_to_world_coords rx ry cx cy of
            (wx, wy) \<Rightarrow> world_to_region_coords wx wy) = (rx, ry, cx, cy)"
  unfolding region_to_world_coords_def world_to_region_coords_def Let_def
    REGION_CELLS_X_def REGION_CELLS_Y_def REGION_BLOCKS_X_def REGION_BLOCKS_Y_def
    BLOCK_CELLS_X_def BLOCK_CELLS_Y_def prod.case
  using geo_axis_roundtrip [OF assms(1,2), of "rx - 11" 327680]
    geo_axis_roundtrip [OF assms(3,4), of "ry - 10" 262144]
  by simp

theorem world_to_region_of_region_to_world_witness:
  "(0::int) \<le> 667 \<and> (667::int) < 2048 \<and> (0::int) \<le> 1144 \<and> (1144::int) < 2048 \<and>
   (case region_to_world_coords 22 16 667 1144 of
      (wx, wy) \<Rightarrow> world_to_region_coords wx wy) = (22, 16, 667, 1144)"
  using world_to_region_of_region_to_world [of 667 1144 22 16] by simp

text \<open>
  C7 as the specification gives it does not hold: the origin offsets of the code put
  world \<open>(83000, 148000)\<close> into region \<open>(23, 22)\<close>.
\<close>

theorem coords_example_counterexample:
  "world_to_region_coords 83000 148000 \<noteq> (22, 16, 667, 1144) \<and>
   region_to_world_coords 22 16 667 1144 \<noteq> (83000, 148000)"
  by (simp add: world_to_region_coords_def region_to_world_coords_def l2d_consts)

text \<open>
  C7, amended. \<open>world_to_region_coords\<close> sends world \<open>(83000, 148000)\<close> to region
  \<open>(23, 22)\<close>, cell \<open>(1091, 1058)\<close>, and \<open>region_to_world_coords\<close> sends region
  \<open>(22, 16)\<close>, cell \<open>(667, 1144)\<close> to world \<open>(43440, -47232)\<close>.
\<close>

theorem coords_example_values:
  "world_to_region_coords 83000 148000 = (23, 22, 1091, 1058) \<and>
   region_to_world_coords 22 16 667 1144 = (43440, - 47232)"
  by (simp add: world_to_region_coords_def region_to_world_coords_def l2d_consts)

section \<open>The L2D codec: round trip, end of file, leftover bytes\<close>

subsection \<open>Heights and bytes\<close>

lemma pack_h_unpack:
  "pack_h (sint (word_cat hi lo :: 16 word)) = Inr [lo, hi :: 8 word]"
proof -
  let ?w = "word_cat hi lo :: 16 word"
  have r: "- 32768 \<le> sint ?w \<and> sint ?w \<le> 32767"
    using sint_ge [of ?w] sint_lt [of ?w] by simp
  have lo: "(word_of_int (sint ?w) :: 8 word) = lo"
    by (rule bit_word_eqI) (auto simp add: bit_simps)
  have d: "sint ?w div 256 = drop_bit 8 (sint ?w)"
    by (simp add: drop_bit_eq_div)
  have hi: "(word_of_int (sint ?w div 256) :: 8 word) = hi"
    unfolding d
    by (rule bit_word_eqI) (auto simp add: bit_simps)
  show ?thesis using r lo hi by (simp add: pack_h_def)
qed

lemma nswe_byte: "(word_of_int (uint (n :: 8 word) AND 0xFF) :: 8 word) = n"
proof -
  have m: "(0xFF :: int) = mask 8" by (simp add: mask_eq_exp_minus_1)
  show ?thesis unfolding m
    by (rule bit_word_eqI) (auto simp add: bit_simps)
qed

lemma take_drop_join:
  assumes "pos \<le> q" "q \<le> p"
  shows "take (q - pos) (drop pos xs) @ take (p - q) (drop q xs) = take (p - pos) (drop pos xs)"
proof -
  have "take (p - pos) (drop pos xs) = take ((q - pos) + (p - q)) (drop pos xs)"
    using assms by simp
  also have "\<dots> = take (q - pos) (drop pos xs) @ take (p - q) (drop (q - pos) (drop pos xs))"
    by (rule take_add)
  also have "drop (q - pos) (drop pos xs) = drop q xs"
    using assms by simp
  finally show ?thesis by simp
qed

lemma take_drop_cons:
  assumes "pos < length xs"
  shows "xs ! pos # take n (drop (Suc pos) xs) = take (Suc n) (drop pos xs)"
  using assms by (simp add: Cons_nth_drop_Suc [symmetric])

lemma byte_at_Inr: "byte_at data pos = Inr b \<longleftrightarrow> pos < length data \<and> b = data ! pos"
  by (auto simp: byte_at_def)

lemma unpack_h_Inr:
  "unpack_h data pos = Inr h \<longleftrightarrow>
     pos + 2 \<le> length data \<and> h = sint (word_cat (data ! (pos + 1)) (data ! pos) :: 16 word)"
  by (auto simp: unpack_h_def)

lemma parse_cell_sound:
  assumes "parse_cell data pos = Inr (c, p)"
  shows "p = pos + 3 \<and> p \<le> length data \<and> write_cell c = Inr (take (p - pos) (drop pos data))"
proof -
  from assms have len: "pos + 3 \<le> length data" and p: "p = pos + 3"
    and c: "c = \<lparr>height = sint (word_cat (data ! (pos + 2)) (data ! (pos + 1)) :: 16 word),
                 nswe = uint (data ! pos)\<rparr>"
    by (auto simp: parse_cell_def byte_at_Inr unpack_h_Inr split: sum.splits)
  have "take 3 (drop pos data) = [data ! pos, data ! (pos + 1), data ! (pos + 2)]"
    using len by (simp add: take_Suc_conv_app_nth numeral_3_eq_3)
  then show ?thesis
    using len p c by (simp add: write_cell_def pack_h_unpack nswe_byte)
qed

lemma parse_cells_sound:
  "parse_cells k data pos = Inr (cs, p) \<Longrightarrow>
     pos \<le> p \<and> (pos \<le> length data \<longrightarrow> p \<le> length data) \<and> length cs = k \<and>
     write_cells cs = Inr (take (p - pos) (drop pos data))"
proof (induction k arbitrary: pos cs p)
  case 0
  then show ?case by simp
next
  case (Suc k)
  from Suc.prems obtain c q cs' where
    c: "parse_cell data pos = Inr (c, q)" and
    r: "parse_cells k data q = Inr (cs', p)" and cs: "cs = c # cs'"
    by (auto split: sum.splits)
  note h = parse_cell_sound [OF c] Suc.IH [OF r]
  have "take (q - pos) (drop pos data) @ take (p - q) (drop q data) = take (p - pos) (drop pos data)"
    using h by (intro take_drop_join) auto
  then show ?case using h cs by auto
qed

lemma parse_layers_sound:
  assumes "parse_layers data pos = Inr (layers, p)"
  shows "pos < p \<and> p \<le> length data \<and> length layers < 256 \<and>
         write_layers layers = Inr (take (p - pos) (drop pos data))"
proof -
  from assms have len: "pos < length data"
    and r: "parse_cells (unat (data ! pos)) data (Suc pos) = Inr (layers, p)"
    by (auto simp: parse_layers_def byte_at_Inr split: sum.splits)
  note h = parse_cells_sound [OF r]
  have n: "length layers < 256"
    using h unsigned_less [of "data ! pos", where ?'a = nat] by simp
  have b: "(of_nat (length layers) :: 8 word) = data ! pos"
    using h by simp
  have "data ! pos # take (p - Suc pos) (drop (Suc pos) data) = take (Suc (p - Suc pos)) (drop pos data)"
    using len by (rule take_drop_cons)
  moreover have "Suc (p - Suc pos) = p - pos" using h by arith
  ultimately show ?thesis
    using h len n b by (simp add: write_layers_def)
qed

lemma parse_cell_layers_sound:
  "parse_cell_layers k data pos = Inr (ls, p) \<Longrightarrow>
     pos \<le> p \<and> (pos \<le> length data \<longrightarrow> p \<le> length data) \<and> length ls = k \<and>
     write_cell_layers ls = Inr (take (p - pos) (drop pos data))"
proof (induction k arbitrary: pos ls p)
  case 0
  then show ?case by simp
next
  case (Suc k)
  from Suc.prems obtain l q ls' where
    c: "parse_layers data pos = Inr (l, q)" and
    r: "parse_cell_layers k data q = Inr (ls', p)" and ls: "ls = l # ls'"
    by (auto split: sum.splits)
  note h = parse_layers_sound [OF c] Suc.IH [OF r]
  have "take (q - pos) (drop pos data) @ take (p - q) (drop q data) = take (p - pos) (drop pos data)"
    using h by (intro take_drop_join) auto
  then show ?case using h ls by auto
qed

lemma parse_block_sound:
  assumes "parse_block data pos = Inr (b, p)"
  shows "pos < p \<and> p \<le> length data \<and>
         write_block b = Inr (take (p - pos) (drop pos data))"
proof -
  from assms have len: "pos < length data"
    by (auto simp: parse_block_def byte_at_Inr split: sum.splits)
  have hd: "data ! pos # take (p - Suc pos) (drop (Suc pos) data) = take (Suc (p - Suc pos)) (drop pos data)"
    using len by (rule take_drop_cons)
  consider (flat) "data ! pos = TYPE_FLAT"
    | (complex) "data ! pos \<noteq> TYPE_FLAT" "data ! pos = TYPE_COMPLEX"
    | (multi) "data ! pos \<noteq> TYPE_FLAT" "data ! pos \<noteq> TYPE_COMPLEX" "data ! pos = TYPE_MULTILAYER"
    using assms len by (auto simp: parse_block_def byte_at_def split: if_splits)
  then show ?thesis
  proof cases
    case flat
    with assms len have l2: "pos + 3 \<le> length data" and p: "p = pos + 3"
      and b: "b = BlockFlat (sint (word_cat (data ! (pos + 2)) (data ! (pos + 1)) :: 16 word))"
      by (auto simp: parse_block_def byte_at_def unpack_h_Inr split: sum.splits)
    have "take 3 (drop pos data) = [data ! pos, data ! (pos + 1), data ! (pos + 2)]"
      using l2 by (simp add: take_Suc_conv_app_nth numeral_3_eq_3)
    then show ?thesis using flat l2 p b by (simp add: pack_h_unpack)
  next
    case complex
    with assms len obtain cells where
      r: "parse_cells (nat BLOCK_CELLS) data (Suc pos) = Inr (cells, p)" and b: "b = BlockComplex cells"
      by (auto simp: parse_block_def byte_at_def split: sum.splits)
    note h = parse_cells_sound [OF r]
    have "Suc (p - Suc pos) = p - pos" using h by arith
    with hd h len complex b show ?thesis by simp
  next
    case multi
    with assms len obtain cls where
      r: "parse_cell_layers (nat BLOCK_CELLS) data (Suc pos) = Inr (cls, p)" and b: "b = BlockMultilayer cls"
      by (auto simp: parse_block_def byte_at_def split: sum.splits)
    note h = parse_cell_layers_sound [OF r]
    have "Suc (p - Suc pos) = p - pos" using h by arith
    with hd h len multi b show ?thesis by simp
  qed
qed

lemma parse_blocks_sound:
  "parse_blocks k data pos = Inr (bs, p) \<Longrightarrow>
     pos \<le> p \<and> (pos \<le> length data \<longrightarrow> p \<le> length data) \<and> length bs = k \<and>
     write_blocks bs = Inr (take (p - pos) (drop pos data))"
proof (induction k arbitrary: pos bs p)
  case 0
  then show ?case by simp
next
  case (Suc k)
  from Suc.prems obtain b q bs' where
    c: "parse_block data pos = Inr (b, q)" and
    r: "parse_blocks k data q = Inr (bs', p)" and bs: "bs = b # bs'"
    by (auto split: sum.splits)
  note h = parse_block_sound [OF c] Suc.IH [OF r]
  have "take (q - pos) (drop pos data) @ take (p - q) (drop q data) = take (p - pos) (drop pos data)"
    using h by (intro take_drop_join) auto
  then show ?case using h bs by auto
qed

subsection \<open>Bytes after the consumed part do not matter\<close>

lemma byte_at_append: "byte_at data pos = Inr b \<Longrightarrow> byte_at (data @ e) pos = Inr b"
  by (auto simp: byte_at_def nth_append split: if_splits)

lemma unpack_h_append: "unpack_h data pos = Inr h \<Longrightarrow> unpack_h (data @ e) pos = Inr h"
  by (auto simp: unpack_h_def nth_append split: if_splits)

lemma parse_cell_append:
  "parse_cell data pos = Inr r \<Longrightarrow> parse_cell (data @ e) pos = Inr r"
  by (auto simp: parse_cell_def byte_at_append unpack_h_append split: sum.splits)

lemma parse_cells_append:
  "parse_cells k data pos = Inr r \<Longrightarrow> parse_cells k (data @ e) pos = Inr r"
proof (induction k arbitrary: pos r)
  case 0
  then show ?case by simp
next
  case (Suc k)
  from Suc.prems obtain c q cs where
    c: "parse_cell data pos = Inr (c, q)" and r: "parse_cells k data q = Inr (cs, snd r)"
    and e: "r = (c # cs, snd r)"
    by (auto split: sum.splits)
  show ?case
    using parse_cell_append [OF c, of e] Suc.IH [OF r] e by (cases r) simp
qed

lemma parse_layers_append:
  "parse_layers data pos = Inr r \<Longrightarrow> parse_layers (data @ e) pos = Inr r"
  by (auto simp: parse_layers_def byte_at_append parse_cells_append split: sum.splits)

lemma parse_cell_layers_append:
  "parse_cell_layers k data pos = Inr r \<Longrightarrow> parse_cell_layers k (data @ e) pos = Inr r"
proof (induction k arbitrary: pos r)
  case 0
  then show ?case by simp
next
  case (Suc k)
  from Suc.prems obtain c q cs where
    c: "parse_layers data pos = Inr (c, q)" and r: "parse_cell_layers k data q = Inr (cs, snd r)"
    and e: "r = (c # cs, snd r)"
    by (auto split: sum.splits)
  show ?case
    using parse_layers_append [OF c, of e] Suc.IH [OF r] e by (cases r) simp
qed

lemma parse_block_append:
  "parse_block data pos = Inr r \<Longrightarrow> parse_block (data @ e) pos = Inr r"
  by (auto simp: parse_block_def byte_at_append unpack_h_append parse_cells_append
        parse_cell_layers_append split: sum.splits if_splits)

lemma parse_blocks_append:
  "parse_blocks k data pos = Inr r \<Longrightarrow> parse_blocks k (data @ e) pos = Inr r"
proof (induction k arbitrary: pos r)
  case 0
  then show ?case by simp
next
  case (Suc k)
  from Suc.prems obtain c q cs where
    c: "parse_block data pos = Inr (c, q)" and r: "parse_blocks k data q = Inr (cs, snd r)"
    and e: "r = (c # cs, snd r)"
    by (auto split: sum.splits)
  show ?case
    using parse_block_append [OF c, of e] Suc.IH [OF r] e by (cases r) simp
qed

lemma parse_blocks_truncated:
  assumes ok: "parse_blocks k data 0 = Inr (bs, p)" and m: "m < p"
  shows "\<exists>e. parse_blocks k (take m data) 0 = Inl e"
proof (cases "parse_blocks k (take m data) 0")
  case (Inl e)
  then show ?thesis by blast
next
  case (Inr r)
  obtain bs' p' where r: "r = (bs', p')" by (cases r)
  from Inr r have "p' \<le> length (take m data)"
    using parse_blocks_sound [of k "take m data" 0 bs' p'] by simp
  moreover from Inr r have "parse_blocks k (take m data @ drop m data) 0 = Inr (bs', p')"
    by (intro parse_blocks_append) simp
  with ok have "p' = p" by simp
  ultimately show ?thesis using m by simp
qed

lemma parse_flat_blocks:
  "parse_blocks k (pre @ concat (replicate k [0xD0, 0, 0]) @ post) (length pre) =
     Inr (replicate k (BlockFlat 0), length pre + 3 * k)"
proof (induction k arbitrary: pre)
  case 0
  then show ?case by simp
next
  case (Suc k)
  let ?data = "pre @ concat (replicate (Suc k) [0xD0, 0, 0]) @ post"
  have b: "parse_block ?data (length pre) = Inr (BlockFlat 0, length pre + 3)"
    by (simp add: parse_block_def byte_at_def unpack_h_def nth_append TYPE_FLAT_def)
  have "parse_blocks k ((pre @ [0xD0, 0, 0]) @ concat (replicate k [0xD0, 0, 0]) @ post)
          (length (pre @ [0xD0, 0, 0])) =
        Inr (replicate k (BlockFlat 0), length (pre @ [0xD0, 0, 0]) + 3 * k)"
    by (rule Suc.IH)
  then have r: "parse_blocks k ?data (length pre + 3) =
      Inr (replicate k (BlockFlat 0), length pre + 3 + 3 * k)"
    by (simp add: numeral_3_eq_3)
  show ?case using b r by simp
qed

lemma parse_empty_stacks:
  "parse_cell_layers k (pre @ replicate k 0 @ post) (length pre) =
     Inr (replicate k [], length pre + k)"
proof (induction k arbitrary: pre)
  case 0
  then show ?case by simp
next
  case (Suc k)
  let ?data = "pre @ replicate (Suc k) 0 @ post"
  have b: "parse_layers ?data (length pre) = Inr ([], length pre + 1)"
    by (simp add: parse_layers_def byte_at_def nth_append)
  have "parse_cell_layers k ((pre @ [0]) @ replicate k 0 @ post) (length (pre @ [0])) =
        Inr (replicate k [], length (pre @ [0]) + k)"
    by (rule Suc.IH)
  then have r: "parse_cell_layers k ?data (length pre + 1) = Inr (replicate k [], length pre + 1 + k)"
    by simp
  show ?case using b r by simp
qed

subsection \<open>Whole files\<close>

lemma nat_REGION_BLOCKS: "nat REGION_BLOCKS = 65536"
  by (simp add: l2d_consts)

lemma write_flat_blocks:
  "write_blocks (replicate k (BlockFlat 0)) = Inr (concat (replicate k [0xD0, 0, 0]))"
  by (induction k) (simp_all add: pack_h_def TYPE_FLAT_def)

lemma length_flat_bytes: "length (concat (replicate k [a, b, c])) = 3 * k"
  by (induction k) simp_all

lemma parse_l2d_flat_file:
  "parse_l2d rx ry (concat (replicate 65536 [0xD0, 0, 0]) @ post) =
     Inr \<lparr>region_x = rx, region_y = ry, blocks = replicate 65536 (BlockFlat 0)\<rparr>"
  using parse_flat_blocks [of 65536 "[]" post]
  by (simp add: parse_l2d_def nat_REGION_BLOCKS)

lemma l2d_end_pos_flat_file:
  "l2d_end_pos (concat (replicate 65536 [0xD0, 0, 0]) @ post) = Some 196608"
  using parse_flat_blocks [of 65536 "[]" post]
  by (simp add: l2d_end_pos_def nat_REGION_BLOCKS)

text \<open>
  C1 as stated fails: a file of 65536 Flat blocks followed by one more byte is accepted,
  and writing the parsed region gives the file without that byte.
\<close>

theorem roundtrip_leftover_counterexample:
  "parse_l2d 22 16 (concat (replicate 65536 [0xD0, 0, 0]) @ [0]) =
     Inr \<lparr>region_x = 22, region_y = 16, blocks = replicate 65536 (BlockFlat 0)\<rparr> \<and>
   write_l2d \<lparr>region_x = 22, region_y = 16, blocks = replicate 65536 (BlockFlat 0)\<rparr> \<noteq>
     Inr (concat (replicate 65536 [0xD0, 0, 0]) @ [0])"
  by (simp add: parse_l2d_flat_file write_l2d_def write_flat_blocks)

text \<open>
  C1, amended. For every byte string that \<open>parse_l2d\<close> accepts, \<open>write_l2d\<close> of the
  parsed region succeeds and yields the part of the input that the parser consumed (its
  first \<open>n\<close> bytes, \<open>n\<close> the offset after the 65536th block); the output is the whole
  input exactly when no byte is left after that block.
\<close>

theorem write_l2d_parse_l2d:
  assumes "parse_l2d rx ry data = Inr region"
  shows "\<exists>n. l2d_end_pos data = Some n \<and> n \<le> length data \<and>
             write_l2d region = Inr (take n data) \<and>
             (write_l2d region = Inr data \<longleftrightarrow> n = length data)"
proof -
  from assms obtain bs n where
    p: "parse_blocks (nat REGION_BLOCKS) data 0 = Inr (bs, n)" and
    r: "region = \<lparr>region_x = rx, region_y = ry, blocks = bs\<rparr>"
    by (auto simp: parse_l2d_def split: sum.splits)
  from parse_blocks_sound [OF p] have n: "n \<le> length data"
    and w: "write_blocks bs = Inr (take n data)"
    by simp_all
  have "take n data = data \<longleftrightarrow> n = length data"
    using n by (metis length_take min.absorb2 take_all order_refl)
  with p r n w show ?thesis
    by (simp add: l2d_end_pos_def write_l2d_def)
qed

theorem write_l2d_parse_l2d_witness:
  "parse_l2d 22 16 (concat (replicate 65536 [0xD0, 0, 0])) =
     Inr \<lparr>region_x = 22, region_y = 16, blocks = replicate 65536 (BlockFlat 0)\<rparr> \<and>
   write_l2d \<lparr>region_x = 22, region_y = 16, blocks = replicate 65536 (BlockFlat 0)\<rparr> =
     Inr (concat (replicate 65536 [0xD0, 0, 0]))"
proof -
  have h: "parse_l2d 22 16 (concat (replicate 65536 [0xD0, 0, 0])) =
     Inr \<lparr>region_x = 22, region_y = 16, blocks = replicate 65536 (BlockFlat 0)\<rparr>"
    using parse_l2d_flat_file [of 22 16 "[]"] by simp
  have e: "l2d_end_pos (concat (replicate 65536 [0xD0, 0, 0])) = Some 196608"
    using l2d_end_pos_flat_file [of "[]"] by simp
  show ?thesis
    using h e write_l2d_parse_l2d [OF h] by (auto simp: length_flat_bytes)
qed

text \<open>
  C6 as stated fails for leftover bytes: the parser stops after the 65536th block at
  offset 196608 of a 196609-byte input and returns the region.
\<close>

theorem parse_l2d_leftover_counterexample:
  "parse_l2d 0 0 (concat (replicate 65536 [0xD0, 0, 0]) @ [0xFF]) =
     Inr \<lparr>region_x = 0, region_y = 0, blocks = replicate 65536 (BlockFlat 0)\<rparr> \<and>
   l2d_end_pos (concat (replicate 65536 [0xD0, 0, 0]) @ [0xFF]) = Some 196608 \<and>
   length (concat (replicate 65536 [0xD0, 0, 0]) @ [0xFF :: 8 word]) = 196609"
  by (simp add: parse_l2d_flat_file l2d_end_pos_flat_file length_flat_bytes)

text \<open>
  C6, amended. When \<open>parse_l2d\<close> accepts an input, 65536 blocks were decoded and they
  end at an offset \<open>n\<close> inside the input; every input cut off before \<open>n\<close> (premature
  end of file) is rejected with an error; bytes after offset \<open>n\<close> are ignored, so the
  input followed by any leftover bytes is accepted with the same region.
\<close>

theorem parse_l2d_eof_and_leftover:
  assumes "parse_l2d rx ry data = Inr region"
  shows "\<exists>n. l2d_end_pos data = Some n \<and> n \<le> length data \<and>
             length (blocks region) = 65536 \<and>
             (\<forall>m<n. \<exists>e. parse_l2d rx ry (take m data) = Inl e) \<and>
             (\<forall>extra. parse_l2d rx ry (data @ extra) = Inr region)"
proof -
  from assms obtain bs n where
    p: "parse_blocks (nat REGION_BLOCKS) data 0 = Inr (bs, n)" and
    r: "region = \<lparr>region_x = rx, region_y = ry, blocks = bs\<rparr>"
    by (auto simp: parse_l2d_def split: sum.splits)
  from parse_blocks_sound [OF p] have n: "n \<le> length data" and l: "length bs = 65536"
    by (simp_all add: nat_REGION_BLOCKS)
  have t: "\<exists>e. parse_l2d rx ry (take m data) = Inl e" if "m < n" for m
    using parse_blocks_truncated [OF p that] by (auto simp: parse_l2d_def)
  have a: "parse_l2d rx ry (data @ extra) = Inr region" for extra
    using parse_blocks_append [OF p, of extra] r by (simp add: parse_l2d_def)
  from p r n l t a show ?thesis
    by (simp add: l2d_end_pos_def)
qed

theorem parse_l2d_eof_and_leftover_witness:
  "parse_l2d 0 0 (concat (replicate 65536 [0xD0, 0, 0])) =
     Inr \<lparr>region_x = 0, region_y = 0, blocks = replicate 65536 (BlockFlat 0)\<rparr> \<and>
   (\<exists>e. parse_l2d 0 0 (take 196607 (concat (replicate 65536 [0xD0, 0, 0]))) = Inl e) \<and>
   parse_l2d 0 0 (concat (replicate 65536 [0xD0, 0, 0]) @ [1, 2, 3]) =
     Inr \<lparr>region_x = 0, region_y = 0, blocks = replicate 65536 (BlockFlat 0)\<rparr>"
proof -
  have h: "parse_l2d 0 0 (concat (replicate 65536 [0xD0, 0, 0])) =
     Inr \<lparr>region_x = 0, region_y = 0, blocks = replicate 65536 (BlockFlat 0)\<rparr>"
    using parse_l2d_flat_file [of 0 0 "[]"] by simp
  have e: "l2d_end_pos (concat (replicate 65536 [0xD0, 0, 0])) = Some 196608"
    using l2d_end_pos_flat_file [of "[]"] by simp
  from parse_l2d_eof_and_leftover [OF h] e have
    "\<forall>m<196608. \<exists>e. parse_l2d 0 0 (take m (concat (replicate 65536 [0xD0, 0, 0]))) = Inl e"
    and "\<forall>extra. parse_l2d 0 0 (concat (replicate 65536 [0xD0, 0, 0]) @ extra) =
       Inr \<lparr>region_x = 0, region_y = 0, blocks = replicate 65536 (BlockFlat 0)\<rparr>"
    by auto
  then show ?thesis using h by simp
qed

section \<open>Layer access on parsed regions\<close>

subsection \<open>Shape of a parsed region\<close>

lemma parse_block_shape:
  assumes "parse_block data pos = Inr (b, p)"
  shows "block_shape b"
proof -
  have n: "nat BLOCK_CELLS = 64" by (simp add: l2d_consts)
  from assms show ?thesis
    by (auto simp: parse_block_def n split: sum.splits if_splits
          dest: parse_cells_sound parse_cell_layers_sound)
qed

lemma parse_blocks_shape:
  "parse_blocks k data pos = Inr (bs, p) \<Longrightarrow> list_all block_shape bs"
proof (induction k arbitrary: pos bs p)
  case 0
  then show ?case by simp
next
  case (Suc k)
  from Suc.prems obtain b q bs' where
    c: "parse_block data pos = Inr (b, q)" and
    r: "parse_blocks k data q = Inr (bs', p)" and bs: "bs = b # bs'"
    by (auto split: sum.splits)
  show ?case using parse_block_shape [OF c] Suc.IH [OF r] bs by simp
qed

lemma parse_l2d_region_shape:
  assumes "parse_l2d rx ry data = Inr region"
  shows "region_shape region"
proof -
  from assms obtain bs n where
    p: "parse_blocks (nat REGION_BLOCKS) data 0 = Inr (bs, n)" and
    r: "region = \<lparr>region_x = rx, region_y = ry, blocks = bs\<rparr>"
    by (auto simp: parse_l2d_def split: sum.splits)
  show ?thesis
    using parse_blocks_sound [OF p] parse_blocks_shape [OF p] r
    by (simp add: region_shape_def nat_REGION_BLOCKS)
qed

text \<open>Where a cell lives: the index of its block and its index inside the block.\<close>

lemma block_index_range:
  fixes cx cy :: int
  assumes "0 \<le> cx" "cx < 2048" "0 \<le> cy" "cy < 2048"
  shows "0 \<le> cx div 8 * 256 + cy div 8" and "cx div 8 * 256 + cy div 8 < 65536"
proof -
  have "0 \<le> cx div 8" "cx div 8 < 256" "0 \<le> cy div 8" "cy div 8 < 256"
    using assms by simp_all
  then show "0 \<le> cx div 8 * 256 + cy div 8" and "cx div 8 * 256 + cy div 8 < 65536"
    by linarith+
qed

lemma cell_index_range:
  fixes cx cy :: int
  shows "0 \<le> cx mod 8 * 8 + cy mod 8" and "cx mod 8 * 8 + cy mod 8 < 64"
proof -
  have "0 \<le> cx mod 8" "cx mod 8 < 8" "0 \<le> cy mod 8" "cy mod 8 < 8" by simp_all
  then show "0 \<le> cx mod 8 * 8 + cy mod 8" and "cx mod 8 * 8 + cy mod 8 < 64" by linarith+
qed

lemma py_index_in_range:
  assumes "0 \<le> i" "i < int (length xs)"
  shows "py_index xs i = Inr (xs ! nat i)"
  using assms by (simp add: py_index_def)

lemma get_block_in_range:
  assumes "region_shape region" "0 \<le> cx" "cx < 2048" "0 \<le> cy" "cy < 2048"
  shows "get_block region (cx div BLOCK_CELLS_X) (cy div BLOCK_CELLS_Y) =
           Inr (blocks region ! nat (cx div 8 * 256 + cy div 8))"
    and "block_shape (blocks region ! nat (cx div 8 * 256 + cy div 8))"
proof -
  note r = block_index_range [OF assms(2-5)]
  have len: "length (blocks region) = 65536" and all: "list_all block_shape (blocks region)"
    using assms(1) by (simp_all add: region_shape_def)
  show "get_block region (cx div BLOCK_CELLS_X) (cy div BLOCK_CELLS_Y) =
           Inr (blocks region ! nat (cx div 8 * 256 + cy div 8))"
    unfolding get_block_def BLOCK_CELLS_X_def BLOCK_CELLS_Y_def REGION_BLOCKS_Y_def
    using r len by (intro py_index_in_range) simp_all
  have "nat (cx div 8 * 256 + cy div 8) < length (blocks region)"
    using r len by simp
  with all show "block_shape (blocks region ! nat (cx div 8 * 256 + cy div 8))"
    by (simp add: list_all_length)
qed

lemma block_get_layers_shape:
  assumes "block_shape b"
  shows "\<exists>layers. block_get_layers b (cx mod BLOCK_CELLS_X) (cy mod BLOCK_CELLS_Y) = Inr layers \<and>
           (layers = [] \<longrightarrow> (\<exists>cl. b = BlockMultilayer cl)) \<and>
           (layers = [] \<longrightarrow>
              (\<forall>layer. block_get_cell b (cx mod BLOCK_CELLS_X) (cy mod BLOCK_CELLS_Y) layer =
                 Inl IndexError)) \<and>
           (layers \<noteq> [] \<longrightarrow>
              (\<forall>layer\<ge>0. block_get_cell b (cx mod BLOCK_CELLS_X) (cy mod BLOCK_CELLS_Y) layer =
                 Inr (if layer < int (length layers) then layers ! nat layer else layers ! 0)))"
proof (cases b)
  case (BlockFlat h)
  then show ?thesis by simp
next
  case (BlockComplex cells)
  with assms have "py_index cells (cx mod 8 * 8 + cy mod 8) = Inr (cells ! nat (cx mod 8 * 8 + cy mod 8))"
    using cell_index_range [of cx cy] by (intro py_index_in_range) simp_all
  with BlockComplex show ?thesis
    by (simp add: BLOCK_CELLS_X_def BLOCK_CELLS_Y_def)
next
  case (BlockMultilayer cl)
  with assms have i: "py_index cl (cx mod 8 * 8 + cy mod 8) = Inr (cl ! nat (cx mod 8 * 8 + cy mod 8))"
    using cell_index_range [of cx cy] by (intro py_index_in_range) simp_all
  let ?ls = "cl ! nat (cx mod 8 * 8 + cy mod 8)"
  have e: "py_index [] layer = (Inl IndexError :: py_error + Cell)" for layer
    by (simp add: py_index_def)
  have n: "py_index ?ls layer = Inr (?ls ! nat layer)" if "0 \<le> layer" "layer < int (length ?ls)" for layer
    using that by (rule py_index_in_range)
  have z: "py_index ?ls 0 = Inr (?ls ! 0)" if "?ls \<noteq> []"
    using that by (simp add: py_index_def)
  show ?thesis
    using BlockMultilayer i e n z
    by (auto simp: BLOCK_CELLS_X_def BLOCK_CELLS_Y_def)
qed

text \<open>
  C9, amended. For every region produced by \<open>parse_l2d\<close> and every in-range cell
  coordinate, \<open>get_layers\<close> returns the list of layers of the cell without faulting.
  When that list is not empty, \<open>get_cell\<close> with any layer index \<open>layer \<ge> 0\<close> returns a
  cell: layer \<open>layer\<close> when the stack has it, layer 0 otherwise. The list is empty only
  for a cell of a Multilayer block stored with layer count 0, and there \<open>get_cell\<close>
  raises IndexError for every layer index.
\<close>

theorem layer_access_nonempty_stacks:
  assumes "parse_l2d rx ry data = Inr region"
    and "0 \<le> cx" "cx < 2048" "0 \<le> cy" "cy < 2048"
  shows "\<exists>layers. get_layers region cx cy = Inr layers \<and>
           (layers = [] \<longrightarrow>
              (\<exists>cl. get_block region (cx div BLOCK_CELLS_X) (cy div BLOCK_CELLS_Y) =
                 Inr (BlockMultilayer cl))) \<and>
           (layers = [] \<longrightarrow> (\<forall>layer. get_cell region cx cy layer = Inl IndexError)) \<and>
           (layers \<noteq> [] \<longrightarrow>
              (\<forall>layer\<ge>0. get_cell region cx cy layer =
                 Inr (if layer < int (length layers) then layers ! nat layer else layers ! 0)))"
proof -
  note s = parse_l2d_region_shape [OF assms(1)]
  note g = get_block_in_range [OF s assms(2-5)]
  from block_get_layers_shape [OF g(2), of cx cy] show ?thesis
    by (simp add: get_layers_def get_cell_def Let_def g(1))
qed

subsection \<open>Files with one Multilayer block\<close>

lemma parse_single_layer_stacks:
  "parse_cell_layers k (pre @ concat (replicate k [1, 0x0F, 0x10, 0]) @ post) (length pre) =
     Inr (replicate k [\<lparr>height = 16, nswe = 15\<rparr>], length pre + 4 * k)"
proof (induction k arbitrary: pre)
  case 0
  then show ?case by simp
next
  case (Suc k)
  let ?s = "[1, 0x0F, 0x10, 0] :: 8 word list"
  let ?data = "pre @ concat (replicate (Suc k) ?s) @ post"
  have b: "parse_layers ?data (length pre) = Inr ([\<lparr>height = 16, nswe = 15\<rparr>], length pre + 4)"
    by (simp add: parse_layers_def parse_cell_def byte_at_def unpack_h_def nth_append)
  have "parse_cell_layers k ((pre @ ?s) @ concat (replicate k ?s) @ post) (length (pre @ ?s)) =
        Inr (replicate k [\<lparr>height = 16, nswe = 15\<rparr>], length (pre @ ?s) + 4 * k)"
    by (rule Suc.IH)
  then have r: "parse_cell_layers k ?data (length pre + 4) =
      Inr (replicate k [\<lparr>height = 16, nswe = 15\<rparr>], length pre + 4 + 4 * k)"
    by (simp add: eval_nat_numeral)
  show ?case using b r by simp
qed

lemma parse_l2d_first_then_flat:
  assumes "parse_block (b0 @ concat (replicate 65535 [0xD0, 0, 0])) 0 = Inr (B, length b0)"
  shows "parse_l2d rx ry (b0 @ concat (replicate 65535 [0xD0, 0, 0])) =
     Inr \<lparr>region_x = rx, region_y = ry, blocks = B # replicate 65535 (BlockFlat 0)\<rparr>"
proof -
  have n: "nat REGION_BLOCKS = Suc 65535" by (simp add: l2d_consts)
  have f: "parse_blocks 65535 (b0 @ concat (replicate 65535 [0xD0, 0, 0])) (length b0) =
      Inr (replicate 65535 (BlockFlat 0), length b0 + 3 * 65535)"
    using parse_flat_blocks [of 65535 b0 "[]"] by simp
  have "parse_blocks (Suc 65535) (b0 @ concat (replicate 65535 [0xD0, 0, 0])) 0 =
      Inr (B # replicate 65535 (BlockFlat 0), length b0 + 3 * 65535)"
    by (simp only: parse_blocks.simps assms f sum.case prod.case)
  then show ?thesis
    unfolding parse_l2d_def n by (simp only: sum.case prod.case)
qed

lemma parse_l2d_empty_stacks_file:
  "parse_l2d rx ry (0xD2 # replicate 64 0 @ concat (replicate 65535 [0xD0, 0, 0])) =
     Inr \<lparr>region_x = rx, region_y = ry,
          blocks = BlockMultilayer (replicate 64 []) # replicate 65535 (BlockFlat 0)\<rparr>"
proof -
  have n: "nat BLOCK_CELLS = 64" by (simp add: l2d_consts)
  have "parse_block ((0xD2 # replicate 64 0) @ concat (replicate 65535 [0xD0, 0, 0])) 0 =
          Inr (BlockMultilayer (replicate 64 []), length (0xD2 # replicate 64 (0 :: 8 word)))"
    using parse_empty_stacks [of 64 "[0xD2]" "concat (replicate 65535 [0xD0, 0, 0])"]
    by (simp add: parse_block_def byte_at_def n TYPE_FLAT_def TYPE_COMPLEX_def TYPE_MULTILAYER_def)
  from parse_l2d_first_then_flat [OF this, of rx ry] show ?thesis by simp
qed

lemma parse_l2d_single_layer_file:
  "parse_l2d rx ry (0xD2 # concat (replicate 64 [1, 0x0F, 0x10, 0]) @
                    concat (replicate 65535 [0xD0, 0, 0])) =
     Inr \<lparr>region_x = rx, region_y = ry,
          blocks = BlockMultilayer (replicate 64 [\<lparr>height = 16, nswe = 15\<rparr>]) #
                   replicate 65535 (BlockFlat 0)\<rparr>"
proof -
  have n: "nat BLOCK_CELLS = 64" by (simp add: l2d_consts)
  have l: "length (concat (replicate 64 [1, 0x0F, 0x10, 0 :: 8 word])) = 256"
    by (simp add: length_concat sum_list_replicate)
  have "parse_block ((0xD2 # concat (replicate 64 [1, 0x0F, 0x10, 0])) @
            concat (replicate 65535 [0xD0, 0, 0])) 0 =
          Inr (BlockMultilayer (replicate 64 [\<lparr>height = 16, nswe = 15\<rparr>]),
               length (0xD2 # concat (replicate 64 [1, 0x0F, 0x10, 0 :: 8 word])))"
    using parse_single_layer_stacks [of 64 "[0xD2]" "concat (replicate 65535 [0xD0, 0, 0])"]
    by (simp add: parse_block_def byte_at_def n l TYPE_FLAT_def TYPE_COMPLEX_def TYPE_MULTILAYER_def)
  from parse_l2d_first_then_flat [OF this, of rx ry] show ?thesis by simp
qed

text \<open>
  C9 as stated fails: \<open>parse_l2d\<close> accepts a Multilayer block whose cells have layer
  count 0; on the parsed region \<open>get_layers\<close> returns the empty list and \<open>get_cell\<close>
  raises IndexError.
\<close>

theorem layer_access_empty_stack_counterexample:
  "parse_l2d 0 0 (0xD2 # replicate 64 0 @ concat (replicate 65535 [0xD0, 0, 0])) =
     Inr \<lparr>region_x = 0, region_y = 0,
          blocks = BlockMultilayer (replicate 64 []) # replicate 65535 (BlockFlat 0)\<rparr> \<and>
   get_layers \<lparr>region_x = 0, region_y = 0,
          blocks = BlockMultilayer (replicate 64 []) # replicate 65535 (BlockFlat 0)\<rparr> 0 0 = Inr [] \<and>
   get_cell \<lparr>region_x = 0, region_y = 0,
          blocks = BlockMultilayer (replicate 64 []) # replicate 65535 (BlockFlat 0)\<rparr> 0 0 99 =
     Inl IndexError"
  by (simp add: parse_l2d_empty_stacks_file get_layers_def get_cell_def get_block_def
        py_index_def l2d_consts)

theorem layer_access_nonempty_stacks_witness:
  "parse_l2d 0 0 (0xD2 # concat (replicate 64 [1, 0x0F, 0x10, 0]) @
                  concat (replicate 65535 [0xD0, 0, 0])) =
     Inr \<lparr>region_x = 0, region_y = 0,
          blocks = BlockMultilayer (replicate 64 [\<lparr>height = 16, nswe = 15\<rparr>]) #
                   replicate 65535 (BlockFlat 0)\<rparr> \<and>
   get_cell \<lparr>region_x = 0, region_y = 0,
          blocks = BlockMultilayer (replicate 64 [\<lparr>height = 16, nswe = 15\<rparr>]) #
                   replicate 65535 (BlockFlat 0)\<rparr> 3 5 99 = Inr \<lparr>height = 16, nswe = 15\<rparr>"
proof -
  let ?F = "0xD2 # concat (replicate 64 [1, 0x0F, 0x10, 0]) @ concat (replicate 65535 [0xD0, 0, 0])"
  let ?R = "\<lparr>region_x = 0, region_y = 0,
          blocks = BlockMultilayer (replicate 64 [\<lparr>height = 16, nswe = 15\<rparr>]) #
                   replicate 65535 (BlockFlat 0)\<rparr>"
  have h: "parse_l2d 0 0 ?F = Inr ?R"
    by (rule parse_l2d_single_layer_file)
  have l: "get_layers ?R 3 5 = Inr [\<lparr>height = 16, nswe = 15\<rparr>]"
    by (simp add: get_layers_def get_block_def py_index_def l2d_consts)
  from layer_access_nonempty_stacks [OF h, of 3 5] l
  have "get_cell ?R 3 5 99 = Inr \<lparr>height = 16, nswe = 15\<rparr>"
    by simp
  with h show ?thesis by simp
qed


section \<open>The region built from a scan\<close>

lemma upto_nth_nat:
  assumes "0 \<le> i" "i \<le> n"
  shows "[0..n] ! nat i = i"
  using assms by (subst nth_upto) auto

lemma nth_concat_rows:
  assumes "\<forall>xs \<in> set xss. length xs = n" "i < length xss" "j < n"
  shows "concat xss ! (i * n + j) = xss ! i ! j"
  using assms
proof (induction xss arbitrary: i)
  case Nil
  then show ?case by simp
next
  case (Cons xs xss)
  show ?case
  proof (cases i)
    case 0
    with Cons.prems show ?thesis by (simp add: nth_append)
  next
    case (Suc i')
    with Cons.prems have "concat xss ! (i' * n + j) = xss ! i' ! j"
      by (intro Cons.IH) auto
    moreover have "Suc i' * n + j - n = i' * n + j" by simp
    ultimately show ?thesis using Cons.prems Suc by (simp add: nth_append)
  qed
qed

lemma length_concat_rows:
  assumes "\<forall>xs \<in> set xss. length xs = n"
  shows "length (concat xss) = length xss * n"
  using assms by (induction xss) auto

lemma blocks_build_region_nth:
  assumes "0 \<le> bx" "bx < 256" "0 \<le> by'" "by' < 256"
  shows "blocks (build_region rx ry heights nswe_data) ! nat (bx * 256 + by') =
           BlockFlat (dict_get heights (bx, by') 0)"
proof -
  let ?row = "\<lambda>bx. map (\<lambda>by'. BlockFlat (dict_get heights (bx, by') 0)) [0..REGION_BLOCKS_Y - 1]"
  let ?rows = "map ?row [0..REGION_BLOCKS_X - 1]"
  have n: "nat (bx * 256 + by') = nat bx * 256 + nat by'"
    using assms by (simp add: nat_add_distrib nat_mult_distrib)
  have len: "\<forall>xs \<in> set ?rows. length xs = 256"
    by (auto simp: REGION_BLOCKS_Y_def)
  have "concat ?rows ! (nat bx * 256 + nat by') = ?rows ! nat bx ! nat by'"
    using assms by (intro nth_concat_rows [OF len]) (auto simp: REGION_BLOCKS_X_def)
  also have "\<dots> = BlockFlat (dict_get heights (bx, by') 0)"
    using assms upto_nth_nat [of bx 255] upto_nth_nat [of by' 255]
    by (simp add: REGION_BLOCKS_X_def REGION_BLOCKS_Y_def)
  finally show ?thesis
    by (simp add: build_region_def n Let_def)
qed

lemma length_blocks_build_region:
  "length (blocks (build_region rx ry heights nswe_data)) = 65536"
proof -
  let ?row = "\<lambda>bx. map (\<lambda>by'. BlockFlat (dict_get heights (bx, by') 0)) [0..REGION_BLOCKS_Y - 1]"
  let ?rows = "map ?row [0..REGION_BLOCKS_X - 1]"
  have len: "\<forall>xs \<in> set ?rows. length xs = 256"
    by (auto simp: REGION_BLOCKS_Y_def)
  have "length (concat ?rows) = length ?rows * 256"
    using len by (rule length_concat_rows)
  then show ?thesis
    by (simp add: build_region_def Let_def REGION_BLOCKS_X_def)
qed

lemma unpack_h_pack:
  assumes "- 32768 \<le> h" "h \<le> 32767"
  shows "sint (word_cat (word_of_int (h div 256) :: 8 word) (word_of_int h :: 8 word) :: 16 word) = h"
proof -
  have d: "h div 256 = drop_bit 8 h"
    by (simp add: drop_bit_eq_div)
  have "(word_cat (word_of_int (h div 256) :: 8 word) (word_of_int h :: 8 word) :: 16 word) = word_of_int h"
    unfolding d
    by (rule bit_word_eqI) (auto simp add: bit_simps not_less)
  moreover have "sint (word_of_int h :: 16 word) = h"
    using assms by (simp add: int_word_sint)
  ultimately show ?thesis by simp
qed

lemma parse_written_flat_blocks:
  "write_blocks (map BlockFlat hs) = Inr out \<Longrightarrow>
   parse_blocks (length hs) (pre @ out @ post) (length pre) =
     Inr (map BlockFlat hs, length pre + length out)"
proof (induction hs arbitrary: pre out)
  case Nil
  then show ?case by simp
next
  case (Cons h hs)
  from Cons.prems obtain rest where
    h: "- 32768 \<le> h" "h \<le> 32767" and
    r: "write_blocks (map BlockFlat hs) = Inr rest" and
    out: "out = [TYPE_FLAT, word_of_int h, word_of_int (h div 256)] @ rest"
    by (auto simp: pack_h_def split: sum.splits if_splits)
  let ?b = "[TYPE_FLAT, word_of_int h, word_of_int (h div 256)] :: 8 word list"
  let ?data = "pre @ out @ post"
  have b: "parse_block ?data (length pre) = Inr (BlockFlat h, length pre + 3)"
    using unpack_h_pack [OF h]
    by (simp add: out parse_block_def byte_at_def unpack_h_def nth_append)
  have "parse_blocks (length hs) ((pre @ ?b) @ rest @ post) (length (pre @ ?b)) =
        Inr (map BlockFlat hs, length (pre @ ?b) + length rest)"
    using r by (rule Cons.IH)
  then have "parse_blocks (length hs) ?data (length pre + 3) =
      Inr (map BlockFlat hs, length pre + length out)"
    by (simp add: out numeral_3_eq_3)
  with b show ?case by simp
qed

lemma length_written_flat_blocks:
  "write_blocks (map BlockFlat hs) = Inr out \<Longrightarrow> length out = 3 * length hs"
proof (induction hs arbitrary: out)
  case Nil
  then show ?case by simp
next
  case (Cons h hs)
  from Cons.prems obtain rest where
    r: "write_blocks (map BlockFlat hs) = Inr rest" and
    out: "out = [TYPE_FLAT, word_of_int h, word_of_int (h div 256)] @ rest"
    by (auto simp: pack_h_def split: sum.splits if_splits)
  from Cons.IH [OF r] out show ?case by simp
qed

text \<open>
  C10. For every heights and nswe map, the region built by \<open>_build_region\<close> has exactly
  65536 blocks, the block at \<open>(bx, by)\<close> is the Flat block with the scanned height (0 when
  none was scanned), the region does not depend on the scanned NSWE values, every cell
  reports \<open>nswe = 0xFF\<close>, and when \<open>write_l2d\<close> writes the region the file has 3 bytes
  per block and parses back to the same region.
\<close>

theorem build_region_flat_only:
  "length (blocks (build_region rx ry heights nswe_data)) = 65536 \<and>
   (\<forall>bx\<in>{0..<256}. \<forall>by'\<in>{0..<256}.
      get_block (build_region rx ry heights nswe_data) bx by' =
        Inr (BlockFlat (dict_get heights (bx, by') 0))) \<and>
   build_region rx ry heights nswe_data = build_region rx ry heights other_nswe_data \<and>
   (\<forall>cx\<in>{0..<2048}. \<forall>cy\<in>{0..<2048}. \<forall>layer.
      get_cell (build_region rx ry heights nswe_data) cx cy layer =
        Inr \<lparr>height = dict_get heights (cx div 8, cy div 8) 0, nswe = 0xFF\<rparr>) \<and>
   (\<forall>out. write_l2d (build_region rx ry heights nswe_data) = Inr out \<longrightarrow>
      length out = 196608 \<and>
      parse_l2d rx ry out = Inr (build_region rx ry heights nswe_data))"
proof -
  let ?R = "build_region rx ry heights nswe_data"
  have len: "length (blocks ?R) = 65536"
    by (rule length_blocks_build_region)
  have blk: "get_block ?R bx by' = Inr (BlockFlat (dict_get heights (bx, by') 0))"
    if "0 \<le> bx" "bx < 256" "0 \<le> by'" "by' < 256" for bx by'
  proof -
    have "0 \<le> bx * 256 + by'" "bx * 256 + by' < 65536" using that by linarith+
    then have "py_index (blocks ?R) (bx * 256 + by') = Inr (blocks ?R ! nat (bx * 256 + by'))"
      using len by (intro py_index_in_range) simp_all
    then show ?thesis
      using blocks_build_region_nth [OF that] by (simp add: get_block_def REGION_BLOCKS_Y_def)
  qed
  have cell: "get_cell ?R cx cy layer =
      Inr \<lparr>height = dict_get heights (cx div 8, cy div 8) 0, nswe = 0xFF\<rparr>"
    if "0 \<le> cx" "cx < 2048" "0 \<le> cy" "cy < 2048" for cx cy layer
  proof -
    have "0 \<le> cx div 8" "cx div 8 < 256" "0 \<le> cy div 8" "cy div 8 < 256"
      using that by simp_all
    from blk [OF this] show ?thesis
      by (simp add: get_cell_def Let_def BLOCK_CELLS_X_def BLOCK_CELLS_Y_def NSWE_ALL_L2D_def)
  qed
  have indep: "?R = build_region rx ry heights other_nswe_data"
    by (simp add: build_region_def Let_def)
  have wr: "length out = 196608 \<and> parse_l2d rx ry out = Inr ?R" if w: "write_l2d ?R = Inr out" for out
  proof -
    let ?hs = "concat (map (\<lambda>bx. map (\<lambda>by'. dict_get heights (bx, by') 0)
                 [0..REGION_BLOCKS_Y - 1]) [0..REGION_BLOCKS_X - 1])"
    have b: "blocks ?R = map BlockFlat ?hs"
      by (simp add: build_region_def Let_def map_concat comp_def)
    have l: "length ?hs = 65536"
      using len b by (metis length_map)
    from w b have "write_blocks (map BlockFlat ?hs) = Inr out"
      by (simp add: write_l2d_def)
    from parse_written_flat_blocks [OF this, of "[]" "[]"] l
    have p: "parse_blocks 65536 out 0 = Inr (map BlockFlat ?hs, length out)"
      by simp
    then have "parse_l2d rx ry out = Inr ?R"
      using b by (simp add: parse_l2d_def nat_REGION_BLOCKS build_region_def)
    moreover have "length out = 196608"
      using length_written_flat_blocks [OF \<open>write_blocks (map BlockFlat ?hs) = Inr out\<close>] l
      by simp
    ultimately show ?thesis by simp
  qed
  from len blk cell indep wr show ?thesis
    by auto
qed

lemma blocks_build_region_one_height:
  "blocks (build_region rx ry [(0, 0) \<mapsto> h] nswe_data) =
     BlockFlat h # replicate 65535 (BlockFlat 0)"
proof (rule nth_equalityI)
  show "length (blocks (build_region rx ry [(0, 0) \<mapsto> h] nswe_data)) =
        length (BlockFlat h # replicate 65535 (BlockFlat 0))"
    by (simp add: length_blocks_build_region)
next
  fix i
  assume "i < length (blocks (build_region rx ry [(0, 0) \<mapsto> h] nswe_data))"
  then have i: "i < 65536" by (simp add: length_blocks_build_region)
  have r: "0 \<le> int (i div 256)" "int (i div 256) < 256" "0 \<le> int (i mod 256)" "int (i mod 256) < 256"
    using i by simp_all
  have e: "nat (int (i div 256) * 256 + int (i mod 256)) = i"
    by (simp add: nat_add_distrib nat_mult_distrib)
  have z: "i div 256 = 0 \<and> i mod 256 = 0 \<longleftrightarrow> i = 0"
    by auto
  from blocks_build_region_nth [OF r, of rx ry "[(0, 0) \<mapsto> h]" nswe_data]
  have "blocks (build_region rx ry [(0, 0) \<mapsto> h] nswe_data) ! i =
          BlockFlat (dict_get [(0, 0) \<mapsto> h] (int (i div 256), int (i mod 256)) 0)"
    by (simp only: e)
  also have "\<dots> = (BlockFlat h # replicate 65535 (BlockFlat 0)) ! i"
    using i z by (cases i) (auto simp: dict_get_def)
  finally show "blocks (build_region rx ry [(0, 0) \<mapsto> h] nswe_data) ! i =
      (BlockFlat h # replicate 65535 (BlockFlat 0)) ! i" .
qed

theorem build_region_flat_only_witness:
  "get_block (build_region 22 16 [(0, 0) \<mapsto> - 3000] [(0, 0) \<mapsto> 0]) 0 0 =
     Inr (BlockFlat (- 3000)) \<and>
   get_cell (build_region 22 16 [(0, 0) \<mapsto> - 3000] [(0, 0) \<mapsto> 0]) 3 5 0 =
     Inr \<lparr>height = - 3000, nswe = 0xFF\<rparr> \<and>
   write_l2d (build_region 22 16 [(0, 0) \<mapsto> - 3000] [(0, 0) \<mapsto> 0]) =
     Inr ([0xD0, 0x48, 0xF4] @ concat (replicate 65535 [0xD0, 0, 0])) \<and>
   parse_l2d 22 16 ([0xD0, 0x48, 0xF4] @ concat (replicate 65535 [0xD0, 0, 0])) =
     Inr (build_region 22 16 [(0, 0) \<mapsto> - 3000] [(0, 0) \<mapsto> 0])"
proof -
  have w: "write_l2d (build_region 22 16 [(0, 0) \<mapsto> - 3000] [(0, 0) \<mapsto> 0]) =
     Inr ([0xD0, 0x48, 0xF4] @ concat (replicate 65535 [0xD0, 0, 0]))"
    by (simp add: write_l2d_def blocks_build_region_one_height write_flat_blocks pack_h_def
          TYPE_FLAT_def)
  show ?thesis
    using w build_region_flat_only [of 22 16 "[(0, 0) \<mapsto> - 3000]" "[(0, 0) \<mapsto> 0]"]
    by (simp add: dict_get_def)
qed

section \<open>The game cipher\<close>

lemma and_15_less: "(i :: nat) AND 15 < 16"
proof -
  have "i AND 15 = i mod 16"
    using take_bit_eq_mask [of 4 i] by (simp add: take_bit_eq_mod mask_eq_exp_minus_1)
  then show ?thesis by simp
qed

lemma key_index:
  assumes "length key = 16"
  shows "py_index key (int (i AND 15)) = Inr (key ! (i AND 15))"
  using assms and_15_less [of i] by (simp add: py_index_def)

lemma decrypt_encrypt_loop:
  assumes "length key = 16"
  shows "\<exists>wire. encrypt_loop key i t body = Inr wire \<and> length wire = length body \<and>
           decrypt_loop key i t wire = Inr body"
proof (induction body arbitrary: i t)
  case Nil
  then show ?case by simp
next
  case (Cons b bs)
  let ?k = "key ! (i AND 15)"
  from Cons.IH [of "Suc i" "b XOR ?k XOR t"] obtain rest where
    r: "encrypt_loop key (Suc i) (b XOR ?k XOR t) bs = Inr rest" "length rest = length bs"
       "decrypt_loop key (Suc i) (b XOR ?k XOR t) rest = Inr bs"
    by blast
  have "(b XOR ?k XOR t) XOR ?k XOR t = b"
    by (rule bit_word_eqI) (auto simp: bit_simps)
  with r show ?case
    by (simp add: key_index [OF assms] Let_def)
qed

lemma and_mask32: "(x :: int) AND 0xFFFFFFFF = x mod 4294967296"
  using take_bit_eq_mask [of 32 x] by (simp add: take_bit_eq_mod mask_eq_exp_minus_1)

lemma uint_byte_of_int: "uint (word_of_int v :: 8 word) = v mod 256"
  by (simp add: uint_word_of_int)

lemma le32_bytes_I:
  assumes "0 \<le> v" "v < 4294967296" "length pre = p"
  shows "le32 (pre @ bytes_I v @ post) p = v"
proof -
  have n: "(pre @ bytes_I v @ post) ! p = word_of_int v"
    "(pre @ bytes_I v @ post) ! (p + 1) = word_of_int (v div 256)"
    "(pre @ bytes_I v @ post) ! (p + 2) = word_of_int (v div 65536)"
    "(pre @ bytes_I v @ post) ! (p + 3) = word_of_int (v div 16777216)"
    using assms(3) by (simp_all add: nth_append bytes_I_def)
  have a: "v mod 4294967296 = 16777216 * (v div 16777216 mod 256) + v mod 16777216"
    using zmod_zmult2_eq [of 256 v 16777216] by simp
  have b: "v mod 16777216 = 65536 * (v div 65536 mod 256) + v mod 65536"
    using zmod_zmult2_eq [of 256 v 65536] by simp
  have c: "v mod 65536 = 256 * (v div 256 mod 256) + v mod 256"
    using zmod_zmult2_eq [of 256 v 256] by simp
  have "v mod 4294967296 = v"
    using assms(1,2) by simp
  with a b c have "v mod 256 + 256 * (v div 256 mod 256) + 65536 * (v div 65536 mod 256) +
        16777216 * (v div 16777216 mod 256) = v"
    by linarith
  then show ?thesis
    unfolding le32_def n uint_byte_of_int .
qed

lemma advance_key_16:
  assumes "length key = 16"
  shows "\<exists>key'. advance_key key n = Inr key' \<and> length key' = 16 \<and>
           key_counter key' = (key_counter key + int n) mod 4294967296 \<and>
           take 8 key' = take 8 key \<and> drop 12 key' = drop 12 key"
proof -
  let ?v = "(le32 key 8 + int n) mod 4294967296"
  have o: "struct_offset (length key) 8 = Inr 8"
    using assms by (simp add: struct_offset_def)
  have r: "0 \<le> ?v" "?v < 4294967296" by simp_all
  have a: "advance_key key n = Inr (take 8 key @ bytes_I ?v @ drop 12 key)"
    using r by (simp add: advance_key_def unpack_from_I_def pack_into_I_def o and_mask32 Let_def)
  have c: "key_counter (take 8 key @ bytes_I ?v @ drop 12 key) = ?v"
    unfolding key_counter_def using r assms by (intro le32_bytes_I) simp_all
  show ?thesis
    using a c assms by (simp add: key_counter_def bytes_I_def)
qed

lemma encrypt_then_decrypt:
  assumes "in_step s r"
  shows "\<exists>s' r' wire.
           GameCrypt_encrypt s body = Inr (s', wire) \<and>
           GameCrypt_decrypt r wire = Inr (r', body) \<and>
           in_step s' r' \<and> length wire = length body \<and>
           key_counter (out_key s') = (key_counter (out_key s) + int (length body)) mod 4294967296 \<and>
           key_counter (in_key r') = (key_counter (in_key r) + int (length body)) mod 4294967296"
proof -
  from assms have e: "enabled s" "enabled r" and k: "in_key r = out_key s" and l: "length (out_key s) = 16"
    by (auto simp: in_step_def)
  from decrypt_encrypt_loop [OF l, of 0 0 body] obtain wire where
    w: "encrypt_loop (out_key s) 0 0 body = Inr wire" "length wire = length body"
       "decrypt_loop (out_key s) 0 0 wire = Inr body"
    by blast
  from advance_key_16 [OF l, of "length body"] obtain key' where
    a: "advance_key (out_key s) (length body) = Inr key'" "length key' = 16"
       "key_counter key' = (key_counter (out_key s) + int (length body)) mod 4294967296"
    by blast
  have "GameCrypt_encrypt s body = Inr (s\<lparr>out_key := key'\<rparr>, wire)"
    using e w a by (simp add: GameCrypt_encrypt_def)
  moreover have "GameCrypt_decrypt r wire = Inr (r\<lparr>in_key := key'\<rparr>, body)"
    using e w a k by (simp add: GameCrypt_decrypt_def)
  moreover have "in_step (s\<lparr>out_key := key'\<rparr>) (r\<lparr>in_key := key'\<rparr>)"
    using e a by (simp add: in_step_def)
  ultimately show ?thesis
    using w(2) a(3) k by auto
qed

lemma key_counter_range: "0 \<le> key_counter key \<and> key_counter key < 4294967296"
proof -
  have b: "0 \<le> uint w \<and> uint w \<le> 255" for w :: "8 word"
    using uint_lt2p [of w] by simp
  show ?thesis
    unfolding key_counter_def le32_def
    using b [of "key ! 8"] b [of "key ! (8 + 1)"] b [of "key ! (8 + 2)"] b [of "key ! (8 + 3)"]
    by linarith
qed

lemma exchange_in_step:
  "in_step s r \<Longrightarrow>
     \<exists>s' r'. exchange s r bodies = Inr (s', r', bodies) \<and> in_step s' r' \<and>
       key_counter (out_key s') =
         (key_counter (out_key s) + int (length (concat bodies))) mod 4294967296 \<and>
       key_counter (in_key r') =
         (key_counter (in_key r) + int (length (concat bodies))) mod 4294967296"
proof (induction bodies arbitrary: s r)
  case Nil
  then show ?case
    using key_counter_range [of "out_key s"] key_counter_range [of "in_key r"] by simp
next
  case (Cons body bodies)
  from encrypt_then_decrypt [OF Cons.prems, of body] obtain s1 r1 wire where
    st: "GameCrypt_encrypt s body = Inr (s1, wire)" "GameCrypt_decrypt r wire = Inr (r1, body)"
      "in_step s1 r1"
      "key_counter (out_key s1) = (key_counter (out_key s) + int (length body)) mod 4294967296"
      "key_counter (in_key r1) = (key_counter (in_key r) + int (length body)) mod 4294967296"
    by blast
  from Cons.IH [OF st(3)] obtain s' r' where
    ex: "exchange s1 r1 bodies = Inr (s', r', bodies)" "in_step s' r'"
      "key_counter (out_key s') =
         (key_counter (out_key s1) + int (length (concat bodies))) mod 4294967296"
      "key_counter (in_key r') =
         (key_counter (in_key r1) + int (length (concat bodies))) mod 4294967296"
    by blast
  have m: "((a + b) mod 4294967296 + c) mod 4294967296 = (a + (b + c)) mod 4294967296" for a b c :: int
    by (simp add: mod_add_left_eq add.assoc)
  show ?case
    using st ex by (simp add: m)
qed

lemma and_15_mod: "(i :: nat) AND 15 = i mod 16"
  using take_bit_eq_mask [of 4 i] by (simp add: take_bit_eq_mod mask_eq_exp_minus_1)

text \<open>
  C2 as stated fails when the decrypting instance has only been initialised: its flag is
  still unset, so \<open>decrypt\<close> hands the encrypted bytes back unchanged and leaves its
  counter alone, while the sender's counter has advanced.
\<close>

theorem game_cipher_receiver_not_enabled_counterexample:
  "GameCrypt_encrypt (GameCrypt_init [1, 2, 3, 4, 5, 6, 7, 8, 9, 10, 11, 12, 13, 14, 15, 16]) [0xAA] =
     Inr (\<lparr>in_key = [1, 2, 3, 4, 5, 6, 7, 8, 9, 10, 11, 12, 13, 14, 15, 16],
           out_key = [1, 2, 3, 4, 5, 6, 7, 8, 9, 10, 11, 12, 13, 14, 15, 16],
           enabled = True\<rparr>, [0xAA]) \<and>
   exchange \<lparr>in_key = [1, 2, 3, 4, 5, 6, 7, 8, 9, 10, 11, 12, 13, 14, 15, 16],
             out_key = [1, 2, 3, 4, 5, 6, 7, 8, 9, 10, 11, 12, 13, 14, 15, 16],
             enabled = True\<rparr>
            (GameCrypt_init [1, 2, 3, 4, 5, 6, 7, 8, 9, 10, 11, 12, 13, 14, 15, 16])
            [[1, 1]] =
     Inr (\<lparr>in_key = [1, 2, 3, 4, 5, 6, 7, 8, 9, 10, 11, 12, 13, 14, 15, 16],
           out_key = [1, 2, 3, 4, 5, 6, 7, 8, 11, 10, 11, 12, 13, 14, 15, 16],
           enabled = True\<rparr>,
          GameCrypt_init [1, 2, 3, 4, 5, 6, 7, 8, 9, 10, 11, 12, 13, 14, 15, 16],
          [[0, 3]])"
  by (simp add: GameCrypt_encrypt_def GameCrypt_decrypt_def GameCrypt_init_def py_index_def
        and_15_mod advance_key_def unpack_from_I_def pack_into_I_def struct_offset_def le32_def
        bytes_I_def and_mask32 Let_def)

text \<open>
  C2, amended. Two instances start from the same 16-byte key. The first \<open>encrypt\<close> call
  of the sending side returns the data unchanged, sets the flag and leaves the keys, so
  the counter, as they were. Provided the flag of the receiving side is set as well,
  every packet body the sender encrypts afterwards is recovered exactly by the
  receiver's \<open>decrypt\<close>, and after each buffer both counters have advanced by the
  length of the buffer (modulo \<open>2\<^sup>3\<^sup>2\<close>) and the two keys are equal again.
\<close>

theorem game_cipher_after_handshake:
  assumes "length key = 16" and "enabled receiver" and "in_key receiver = key"
  shows "GameCrypt_encrypt (GameCrypt_init key) first =
           Inr ((GameCrypt_init key)\<lparr>enabled := True\<rparr>, first) \<and>
         key_counter (out_key ((GameCrypt_init key)\<lparr>enabled := True\<rparr>)) = key_counter key \<and>
         (\<exists>s' r'. exchange ((GameCrypt_init key)\<lparr>enabled := True\<rparr>) receiver bodies =
                    Inr (s', r', bodies) \<and>
                  in_step s' r' \<and>
                  key_counter (out_key s') =
                    (key_counter key + int (length (concat bodies))) mod 4294967296 \<and>
                  key_counter (in_key r') =
                    (key_counter key + int (length (concat bodies))) mod 4294967296) \<and>
         (\<forall>s r body. in_step s r \<longrightarrow>
            (\<exists>s' r' wire.
               GameCrypt_encrypt s body = Inr (s', wire) \<and>
               GameCrypt_decrypt r wire = Inr (r', body) \<and>
               in_step s' r' \<and>
               key_counter (out_key s') =
                 (key_counter (out_key s) + int (length body)) mod 4294967296 \<and>
               key_counter (in_key r') =
                 (key_counter (in_key r) + int (length body)) mod 4294967296))"
proof -
  let ?s = "(GameCrypt_init key)\<lparr>enabled := True\<rparr>"
  have f: "GameCrypt_encrypt (GameCrypt_init key) first = Inr (?s, first)"
    by (simp add: GameCrypt_encrypt_def GameCrypt_init_def)
  have c: "key_counter (out_key ?s) = key_counter key"
    by (simp add: GameCrypt_init_def)
  have i: "in_step ?s receiver"
    using assms by (simp add: in_step_def GameCrypt_init_def)
  from exchange_in_step [OF i, of bodies] assms(3)
  have x: "\<exists>s' r'. exchange ?s receiver bodies = Inr (s', r', bodies) \<and> in_step s' r' \<and>
       key_counter (out_key s') = (key_counter key + int (length (concat bodies))) mod 4294967296 \<and>
       key_counter (in_key r') = (key_counter key + int (length (concat bodies))) mod 4294967296"
    by (simp add: GameCrypt_init_def)
  have p: "\<exists>s' r' wire.
       GameCrypt_encrypt s body = Inr (s', wire) \<and> GameCrypt_decrypt r wire = Inr (r', body) \<and>
       in_step s' r' \<and>
       key_counter (out_key s') = (key_counter (out_key s) + int (length body)) mod 4294967296 \<and>
       key_counter (in_key r') = (key_counter (in_key r) + int (length body)) mod 4294967296"
    if "in_step s r" for s r body
    using encrypt_then_decrypt [OF that, of body] by blast
  from f c x p show ?thesis by blast
qed

theorem game_cipher_after_handshake_witness:
  "\<exists>s' r'.
     exchange ((GameCrypt_init [1, 2, 3, 4, 5, 6, 7, 8, 9, 10, 11, 12, 13, 14, 15, 16])
                 \<lparr>enabled := True\<rparr>)
       \<lparr>in_key = [1, 2, 3, 4, 5, 6, 7, 8, 9, 10, 11, 12, 13, 14, 15, 16],
        out_key = [1, 2, 3, 4, 5, 6, 7, 8, 9, 10, 11, 12, 13, 14, 15, 16],
        enabled = True\<rparr>
       [[1, 1], [7]] = Inr (s', r', [[1, 1], [7]]) \<and>
     key_counter (out_key s') = 202050060 \<and> key_counter (in_key r') = 202050060"
proof -
  let ?K = "[1, 2, 3, 4, 5, 6, 7, 8, 9, 10, 11, 12, 13, 14, 15, 16] :: 8 word list"
  let ?r = "\<lparr>in_key = ?K, out_key = ?K, enabled = True\<rparr>"
  have k: "length ?K = 16" by simp
  have e: "enabled ?r" by simp
  have i: "in_key ?r = ?K" by simp
  have c: "key_counter ?K = 202050057" by (simp add: key_counter_def le32_def)
  have n: "(key_counter ?K + int (length (concat [[1, 1], [7 :: 8 word]]))) mod 4294967296 =
      202050060"
    by (simp add: c)
  from game_cipher_after_handshake [OF k e i, of "[]" "[[1, 1], [7]]"]
  have "\<exists>s' r'. exchange ((GameCrypt_init ?K)\<lparr>enabled := True\<rparr>) ?r [[1, 1], [7]] =
            Inr (s', r', [[1, 1], [7]]) \<and> in_step s' r' \<and>
          key_counter (out_key s') =
            (key_counter ?K + int (length (concat [[1, 1], [7 :: 8 word]]))) mod 4294967296 \<and>
          key_counter (in_key r') =
            (key_counter ?K + int (length (concat [[1, 1], [7 :: 8 word]]))) mod 4294967296"
    by blast
  then show ?thesis
    unfolding n by blast
qed

section \<open>The login frame\<close>

lemma total_pad_eq:
  fixes len :: int
  shows "(let pad_size = (if len mod 8 \<noteq> 0 then 8 - len mod 8 else 0);
              total_pad = pad_size + 4;
              total_pad = (if (len + total_pad) mod 8 \<noteq> 0
                           then total_pad + (8 - (len + total_pad) mod 8) else total_pad)
          in total_pad) = (len + 7) div 8 * 8 + 8 - len"
proof (cases "len mod 8 = 0")
  case True
  then have a: "(len + 4) mod 8 = 4" by arith
  from True have b: "(len + 7) div 8 * 8 = len" by arith
  show ?thesis using True a b by (simp add: Let_def)
next
  case False
  have a: "(len + (8 - len mod 8 + 4)) mod 8 = 4" by arith
  from False have b: "(len + 7) div 8 * 8 = len + 8 - len mod 8" by arith
  show ?thesis using False a b by (simp add: Let_def)
qed

lemma frame_length_int: "int (frame_length L) = (int L + 7) div 8 * 8 + 8"
  by (simp add: frame_length_def zdiv_int)

lemma frame_length_facts:
  "frame_length L mod 8 = 0" "L \<le> frame_length L - 8" "frame_length L - 8 < L + 8"
  "L + 8 \<le> frame_length L"
  unfolding frame_length_def by presburger+

lemma length_reverse_slice: "length (reverse_slice b off) = length b"
  unfolding reverse_slice_def by (simp add: min_def)

lemma length_swap_endian_block: "length (swap_endian_block b off) = length b"
  by (simp add: swap_endian_block_def length_reverse_slice)

lemma checksum_loop:
  assumes "\<forall>k \<in> set ks. 4 * k + 4 \<le> length data"
  shows "for_each (map (\<lambda>k. 4 * int k) ks)
           (\<lambda>i chk. case unpack_from_I data i of Inl e \<Rightarrow> Inl e | Inr w \<Rightarrow> Inr (chk XOR w)) c =
         Inr (fold (\<lambda>k chk. chk XOR le32 data (4 * k)) ks c)"
  using assms
proof (induction ks arbitrary: c)
  case Nil
  then show ?case by simp
next
  case (Cons k ks)
  then have "4 * k + 4 \<le> length data" by simp
  then have "unpack_from_I data (4 * int k) = Inr (le32 data (4 * k))"
    by (simp add: unpack_from_I_def struct_offset_def nat_mult_distrib)
  with Cons show ?case by simp
qed

lemma le32_range: "0 \<le> le32 data p \<and> le32 data p < 4294967296"
proof -
  have b: "0 \<le> uint w \<and> uint w \<le> 255" for w :: "8 word"
    using uint_lt2p [of w] by simp
  show ?thesis
    unfolding le32_def
    using b [of "data ! p"] b [of "data ! (p + 1)"] b [of "data ! (p + 2)"] b [of "data ! (p + 3)"]
    by linarith
qed

lemma xor_u32:
  fixes a b :: int
  assumes "0 \<le> a" "a < 4294967296" "0 \<le> b" "b < 4294967296"
  shows "0 \<le> a XOR b \<and> a XOR b < 4294967296"
proof -
  have "a XOR b < 2 ^ 32"
    using assms by (intro XOR_upper) simp_all
  then show ?thesis using assms by simp
qed

lemma fold_xor_range:
  assumes "0 \<le> c" "c < 4294967296"
  shows "0 \<le> fold (\<lambda>k chk. chk XOR le32 data (4 * k)) ks c \<and>
         fold (\<lambda>k chk. chk XOR le32 data (4 * k)) ks c < 4294967296"
  using assms
proof (induction ks arbitrary: c)
  case Nil
  then show ?case by simp
next
  case (Cons k ks)
  from xor_u32 [OF Cons.prems] le32_range [of data "4 * k"]
  have "0 \<le> c XOR le32 data (4 * k) \<and> c XOR le32 data (4 * k) < 4294967296"
    using Cons.prems xor_u32 by blast
  then show ?case using Cons.IH by simp
qed

lemma xor_words_range: "0 \<le> xor_words data m \<and> xor_words data m < 4294967296"
  unfolding xor_words_def by (rule fold_xor_range) simp_all

lemma xor_words_append:
  assumes "4 * m \<le> length data"
  shows "xor_words (data @ tail) m = xor_words data m"
proof -
  have "le32 (data @ tail) (4 * k) = le32 data (4 * k)" if "k < m" for k
    using that assms by (simp add: le32_def nth_append)
  then have "fold (\<lambda>k chk. chk XOR le32 (data @ tail) (4 * k)) [0..<m] 0 =
             fold (\<lambda>k chk. chk XOR le32 data (4 * k)) [0..<m] 0"
    by (intro fold_cong) auto
  then show ?thesis by (simp add: xor_words_def)
qed

lemma append_checksum_aligned:
  assumes "length data = n" "n mod 4 = 0" "4 \<le> n"
  shows "append_checksum data 0 (int n) =
           Inr (take (n - 4) data @ bytes_I (xor_words data ((n - 4) div 4)))"
proof -
  let ?m = "(n - 4) div 4"
  have m: "nat ((int n - 1) div 4) = ?m"
  proof -
    from assms(2,3) obtain q where q: "n = 4 * Suc q"
      by (metis Suc_pred' mod_0_imp_dvd dvdE mult_is_0 not_less_eq_eq not_numeral_le_zero zero_less_iff_neq_zero)
    have "(int n - 1) div 4 = int q" unfolding q by simp
    moreover have "(n - 4) div 4 = q" unfolding q by simp
    ultimately show ?thesis by simp
  qed
  have r: "range4 0 (0 + (int n - 4)) = map (\<lambda>k. 4 * int k) [0..<?m]"
    by (simp add: range4_def m)
  have "\<forall>k \<in> set [0..<?m]. 4 * k + 4 \<le> length data"
    using assms by auto
  from checksum_loop [OF this, of 0]
  have l: "for_each (map (\<lambda>k. 4 * int k) [0..<?m])
           (\<lambda>i chk. case unpack_from_I data i of Inl e \<Rightarrow> Inl e | Inr w \<Rightarrow> Inr (chk XOR w)) 0 =
         Inr (xor_words data ?m)"
    by (simp add: xor_words_def)
  have o: "struct_offset n (int n - 4) = Inr (n - 4)"
    using assms by (simp add: struct_offset_def nat_diff_distrib)
  have x: "xor_words data ?m AND 0xFFFFFFFF = xor_words data ?m"
    using xor_words_range [of data ?m] by (simp add: and_mask32)
  show ?thesis
    unfolding append_checksum_def Let_def r l
    using xor_words_range [of data ?m] assms
    by (simp add: pack_into_I_def o x)
qed

lemma length_l2_block:
  assumes "\<forall>b. length b = 8 \<longrightarrow> length (E b) = 8" "length blk = 8"
  shows "length (l2_block E blk) = 8"
  using assms by (simp add: l2_block_def length_swap_endian_block)

lemma drop_after_replaced:
  assumes "length pre = p" "length mid = 8" "p + 8 \<le> j"
  shows "drop j (pre @ mid @ drop (p + 8) data) = drop j data"
  using assms by simp

lemma L2Blowfish_block_full:
  assumes E: "\<forall>b. length b = 8 \<longrightarrow> length (E b) = 8" and len: "8 * a + 8 \<le> length data"
  shows "L2Blowfish_block E (8 * a) data =
           Inr (take (8 * a) data @ l2_block E (take 8 (drop (8 * a) data)) @ drop (8 * a + 8) data)"
proof -
  have "length (swap_endian_block (take 8 (drop (8 * a) data)) 0) = 8"
    using len by (simp add: length_swap_endian_block)
  then show ?thesis
    by (simp add: L2Blowfish_block_def cipher_encrypt_def l2_block_def Let_def)
qed

lemma L2Blowfish_loop:
  assumes E: "\<forall>b. length b = 8 \<longrightarrow> length (E b) = 8"
  shows "n = b - a \<Longrightarrow> a \<le> b \<Longrightarrow> 8 * b \<le> length data \<Longrightarrow>
         for_each (map (\<lambda>k. 8 * k) [a..<b]) (L2Blowfish_block E) data =
           Inr (take (8 * a) data @
                concat (map (\<lambda>k. l2_block E (take 8 (drop (8 * k) data))) [a..<b]) @
                drop (8 * b) data)"
proof (induction n arbitrary: a data)
  case 0
  then show ?case by simp
next
  case (Suc n)
  then have ab: "a < b" and len: "8 * a + 8 \<le> length data" by simp_all
  let ?blk = "l2_block E (take 8 (drop (8 * a) data))"
  let ?pre = "take (8 * a) data"
  let ?d1 = "?pre @ ?blk @ drop (8 * a + 8) data"
  have lp: "length ?pre = 8 * a" using len by simp
  have lb: "length ?blk = 8"
    using E len by (intro length_l2_block) simp_all
  have l1: "length ?d1 = length data"
    using lp lb len by simp
  have step: "L2Blowfish_block E (8 * a) data = Inr ?d1"
    using E len by (rule L2Blowfish_block_full)
  have d: "drop j ?d1 = drop j data" if "8 * a + 8 \<le> j" for j
    using lp lb that by (rule drop_after_replaced)
  have t: "take (8 * Suc a) ?d1 = ?pre @ ?blk"
    using lp lb by simp
  have m: "map (\<lambda>k. l2_block E (take 8 (drop (8 * k) ?d1))) [Suc a..<b] =
           map (\<lambda>k. l2_block E (take 8 (drop (8 * k) data))) [Suc a..<b]"
  proof (rule map_cong [OF refl])
    fix k
    assume "k \<in> set [Suc a..<b]"
    then have "8 * a + 8 \<le> 8 * k" by simp
    from d [OF this]
    show "l2_block E (take 8 (drop (8 * k) ?d1)) = l2_block E (take 8 (drop (8 * k) data))"
      by (simp only:)
  qed
  have "for_each (map (\<lambda>k. 8 * k) [Suc a..<b]) (L2Blowfish_block E) ?d1 =
           Inr (take (8 * Suc a) ?d1 @
                concat (map (\<lambda>k. l2_block E (take 8 (drop (8 * k) ?d1))) [Suc a..<b]) @
                drop (8 * b) ?d1)"
    using Suc.prems l1 by (intro Suc.IH) simp_all
  also have "\<dots> = Inr (?pre @
                concat (map (\<lambda>k. l2_block E (take 8 (drop (8 * k) data))) [a..<b]) @
                drop (8 * b) data)"
    using ab d [of "8 * b"] by (simp only: t m) (simp add: upt_conv_Cons)
  finally show ?case
    using ab step by (simp add: upt_conv_Cons)
qed

lemma L2Blowfish_encrypt_blocks:
  assumes E: "\<forall>b. length b = 8 \<longrightarrow> length (E b) = 8" and len: "length data mod 8 = 0"
  shows "L2Blowfish_encrypt E data =
           Inr (concat (map (\<lambda>k. l2_block E (take 8 (drop (8 * k) data))) [0..<length data div 8]))"
proof -
  have n: "(length data + 7) div 8 = length data div 8"
    using len by arith
  have "8 * (length data div 8) = length data"
    using len by arith
  with L2Blowfish_loop [OF E, of "length data div 8" "length data div 8" 0 data]
  show ?thesis
    by (simp add: L2Blowfish_encrypt_def n)
qed

lemma length_l2_blocks:
  assumes E: "\<forall>b. length b = 8 \<longrightarrow> length (E b) = 8" and len: "8 * m \<le> length data"
  shows "length (concat (map (\<lambda>k. l2_block E (take 8 (drop (8 * k) data))) [0..<m])) = 8 * m"
  using len
proof (induction m)
  case 0
  then show ?case by simp
next
  case (Suc m)
  have "length (l2_block E (take 8 (drop (8 * m) data))) = 8"
    using E Suc.prems by (intro length_l2_block) simp_all
  with Suc show ?case by simp
qed

text \<open>
  C5 as stated fails on the frame length: for a payload of one byte the smallest
  multiple of 8 that is at least \<open>L + 4 = 5\<close> is 8, and \<open>LoginCrypt.encrypt\<close> builds a
  frame of 16 bytes (shown with the identity in the place of the block cipher).
\<close>

theorem login_encrypt_length_counterexample:
  "LoginCrypt_encrypt (Some (\<lambda>b. b)) [7] = Inr [7, 0, 0, 0, 0, 0, 0, 0, 0, 0, 0, 0, 7, 0, 0, 0]"
  by code_simp

text \<open>
  C5, amended. For every payload of length \<open>L\<close>, \<open>LoginCrypt.encrypt\<close> pads the payload
  with zero bytes to the smallest multiple of 8 that is at least \<open>L\<close> and then adds 8
  more bytes, so the frame has \<open>frame_length L\<close> bytes; the frame is the payload, zero
  bytes, and in its last four bytes the XOR checksum of everything before them; the
  result is that frame encrypted block by block with the dynamic key.
\<close>

theorem login_encrypt_frame:
  assumes E: "\<forall>b. length b = 8 \<longrightarrow> length (E b) = 8"
  shows "\<exists>body. LoginCrypt_encrypt (Some E) payload = Inr body \<and>
           length body = frame_length (length payload) \<and>
           body = concat (map (\<lambda>k. l2_block E (take 8 (drop (8 * k) (login_frame payload))))
                    [0..<frame_length (length payload) div 8]) \<and>
           length (login_frame payload) = frame_length (length payload) \<and>
           take (length payload) (login_frame payload) = payload \<and>
           frame_length (length payload) mod 8 = 0 \<and>
           length payload \<le> frame_length (length payload) - 8 \<and>
           frame_length (length payload) - 8 < length payload + 8"
proof -
  let ?L = "length payload"
  let ?n = "frame_length ?L"
  let ?m = "(?n - 4) div 4"
  let ?padded = "payload @ replicate (?n - 4 - ?L) 0"
  let ?data = "payload @ replicate (?n - ?L) 0"
  note f = frame_length_facts [of ?L]
  have pad: "nat ((int ?L + 7) div 8 * 8 + 8 - int ?L) = ?n - ?L"
    using frame_length_int [of ?L] by simp
  have ld: "length ?data = ?n" using f by simp
  have n4: "?n mod 4 = 0" "4 \<le> ?n" using f by arith+
  have split: "?data = ?padded @ replicate 4 0"
  proof -
    have "?n - ?L = (?n - 4 - ?L) + 4" using f by arith
    then have "replicate (?n - ?L) (0 :: 8 word) = replicate (?n - 4 - ?L) 0 @ replicate 4 0"
      by (metis replicate_add)
    then show ?thesis by simp
  qed
  have lp: "length ?padded = ?n - 4" using f by simp
  have tk: "take (?n - 4) ?data = ?padded"
    unfolding split using lp by simp
  have m4: "4 * ?m = ?n - 4" using n4 by arith
  have xw: "xor_words ?data ?m = xor_words ?padded ?m"
    unfolding split using lp m4 by (intro xor_words_append) simp
  have "append_checksum ?data 0 (int ?n) =
      Inr (take (?n - 4) ?data @ bytes_I (xor_words ?data ?m))"
    by (rule append_checksum_aligned [OF ld n4])
  also have "\<dots> = Inr (?padded @ bytes_I (xor_words ?padded ?m))"
    by (simp only: tk xw)
  also have "\<dots> = Inr (login_frame payload)"
    by (simp only: login_frame_def Let_def)
  finally have chk: "append_checksum ?data 0 (int ?n) = Inr (login_frame payload)" .
  have lf: "length (login_frame payload) = ?n"
    using lp n4 by (simp add: login_frame_def Let_def bytes_I_def)
  have tp: "take ?L (login_frame payload) = payload"
    by (simp add: login_frame_def Let_def)
  have enc: "L2Blowfish_encrypt E (login_frame payload) =
      Inr (concat (map (\<lambda>k. l2_block E (take 8 (drop (8 * k) (login_frame payload)))) [0..<?n div 8]))"
    using L2Blowfish_encrypt_blocks [OF E, of "login_frame payload"] f(1) by (simp add: lf)
  have run: "LoginCrypt_encrypt (Some E) payload =
      Inr (concat (map (\<lambda>k. l2_block E (take 8 (drop (8 * k) (login_frame payload)))) [0..<?n div 8]))"
    unfolding LoginCrypt_encrypt_def Let_def total_pad_eq [unfolded Let_def] pad
    using chk enc by (simp only: ld sum.case option.case)
  have lb: "length (concat (map (\<lambda>k. l2_block E (take 8 (drop (8 * k) (login_frame payload))))
      [0..<?n div 8])) = ?n"
  proof -
    have e: "8 * (?n div 8) = ?n" using f(1) by arith
    from length_l2_blocks [OF E, of "?n div 8" "login_frame payload"] show ?thesis
      by (simp add: lf e)
  qed
  from run lb lf tp f show ?thesis by simp
qed

theorem login_encrypt_frame_witness:
  "\<exists>body. LoginCrypt_encrypt (Some (\<lambda>b. b)) [1, 2, 3, 4, 5] = Inr body \<and> length body = 16"
proof -
  have h: "\<forall>b :: 8 word list. length b = 8 \<longrightarrow> length ((\<lambda>b. b) b) = 8" by simp
  have n: "frame_length (length [1, 2, 3, 4, 5 :: 8 word]) = 16"
    by (simp add: frame_length_def)
  from login_encrypt_frame [OF h, of "[1, 2, 3, 4, 5]"] show ?thesis
    unfolding n by blast
qed

section \<open>Claiming regions\<close>

lemma store_region_Nil: "store_region k r [] = []"
  by (simp add: store_region_def)

lemma store_region_Cons:
  "store_region k r ((k', r') # rs) =
     (if k' = k then (k', r) else (k', r')) # store_region k r rs"
  by (simp add: store_region_def)

lemma map_fst_store_region: "map fst (store_region k r rs) = map fst rs"
proof (induction rs)
  case Nil
  then show ?case by (simp add: store_region_Nil)
next
  case (Cons a rs)
  then show ?case by (cases a) (simp add: store_region_Cons)
qed

lemma map_of_store_region:
  "map_of (store_region k r rs) k' =
     (if k' = k \<and> k \<in> fst ` set rs then Some r else map_of rs k')"
proof (induction rs)
  case Nil
  then show ?case by (simp add: store_region_Nil)
next
  case (Cons a rs)
  then show ?case by (cases a) (force simp: store_region_Cons)
qed

lemma store_region_absent:
  "k \<notin> fst ` set rs \<Longrightarrow> store_region k r rs = rs"
proof (induction rs)
  case Nil
  then show ?case by (simp add: store_region_Nil)
next
  case (Cons a rs)
  then show ?case by (cases a) (auto simp: store_region_Cons)
qed

lemma pending_after_store:
  assumes "distinct (map fst rs)" "map_of rs k = Some r0" "status r0 = PENDING" "status r \<noteq> PENDING"
  shows "Suc (length (filter (\<lambda>(k, r). status r = PENDING) (store_region k r rs))) =
         length (filter (\<lambda>(k, r). status r = PENDING) rs)"
  using assms
proof (induction rs)
  case Nil
  then show ?case by simp
next
  case (Cons a rs)
  obtain k' r' where a: "a = (k', r')" by (cases a)
  show ?case
  proof (cases "k' = k")
    case True
    with Cons.prems a have "k \<notin> fst ` set rs" "r' = r0" by auto
    then show ?thesis
      using Cons.prems a True by (simp add: store_region_Cons store_region_absent)
  next
    case False
    with Cons.prems a have "map_of rs k = Some r0" "distinct (map fst rs)" by auto
    from Cons.IH [OF this(2) this(1) Cons.prems(3,4)] show ?thesis
      using a False by (simp add: store_region_Cons)
  qed
qed

lemma claim_loop_none:
  assumes "\<forall>k \<in> set keys. \<exists>r. map_of (regions self) k = Some r \<and> status r \<noteq> PENDING"
  shows "claim_loop keys w t t' self = Inr (self, None)"
  using assms by (induction keys) auto

lemma claim_loop_some:
  assumes "\<forall>k \<in> set keys. \<exists>r. map_of (regions self) k = Some r"
    and "\<exists>k \<in> set keys. \<exists>r. map_of (regions self) k = Some r \<and> status r = PENDING"
  shows "\<exists>k r0 self'. k \<in> set keys \<and> map_of (regions self) k = Some r0 \<and> status r0 = PENDING \<and>
           claim_loop keys w t t' self =
             Inr (self', Some (r0\<lparr>status := SCANNING, assigned_worker := w, started_at := t\<rparr>)) \<and>
           regions self' =
             store_region k (r0\<lparr>status := SCANNING, assigned_worker := w, started_at := t\<rparr>)
               (regions self)"
  using assms
proof (induction keys)
  case Nil
  then show ?case by simp
next
  case (Cons k keys)
  from Cons.prems(1) obtain r where r: "map_of (regions self) k = Some r" by auto
  show ?case
  proof (cases "status r = PENDING")
    case True
    with r show ?thesis
      by (auto simp: Let_def persist_region_def push_event_def)
  next
    case False
    with Cons.prems r have
      "\<exists>k \<in> set keys. \<exists>r. map_of (regions self) k = Some r \<and> status r = PENDING"
      by auto
    with Cons.IH Cons.prems(1) obtain k' r0 self' where
      "k' \<in> set keys" "map_of (regions self) k' = Some r0" "status r0 = PENDING"
      "claim_loop keys w t t' self =
         Inr (self', Some (r0\<lparr>status := SCANNING, assigned_worker := w, started_at := t\<rparr>))"
      "regions self' =
         store_region k' (r0\<lparr>status := SCANNING, assigned_worker := w, started_at := t\<rparr>)
           (regions self)"
      by auto
    with r False show ?thesis by auto
  qed
qed

lemma RegionState_key_claimed:
  "RegionState_key (r\<lparr>status := s, assigned_worker := w, started_at := t\<rparr>) = RegionState_key r"
  by (simp add: RegionState_key_def)

lemma registry_entry:
  assumes "registry_ok self" "map_of (regions self) k = Some r"
  shows "k = RegionState_key r"
proof -
  from assms(2) have "(k, r) \<in> set (regions self)" by (rule map_of_SomeD)
  with assms(1) show ?thesis by (auto simp: registry_ok_def list_all_iff)
qed

lemma get_next_region_none:
  assumes "registry_ok self" "pending_count self = 0"
  shows "get_next_region self w t t' = Inr (self, None)"
proof -
  have "\<exists>r. map_of (regions self) k = Some r \<and> status r \<noteq> PENDING"
    if "k \<in> set (sort (map fst (regions self)))" for k
  proof -
    from that obtain r where r: "map_of (regions self) k = Some r"
      by (cases "map_of (regions self) k") (auto simp: map_of_eq_None_iff)
    then have "(k, r) \<in> set (regions self)" by (rule map_of_SomeD)
    with assms(2) have "status r \<noteq> PENDING"
      by (auto simp: pending_count_def filter_empty_conv)
    with r show ?thesis by blast
  qed
  then show ?thesis
    unfolding get_next_region_def by (intro claim_loop_none) blast
qed

lemma get_next_region_some:
  assumes ok: "registry_ok self" and p: "0 < pending_count self"
  shows "\<exists>r0 self'.
           map_of (regions self) (RegionState_key r0) = Some r0 \<and> status r0 = PENDING \<and>
           get_next_region self w t t' =
             Inr (self', Some (r0\<lparr>status := SCANNING, assigned_worker := w, started_at := t\<rparr>)) \<and>
           registry_ok self' \<and>
           Suc (pending_count self') = pending_count self \<and>
           (\<forall>k. map_of (regions self') k =
                  (if k = RegionState_key r0
                   then Some (r0\<lparr>status := SCANNING, assigned_worker := w, started_at := t\<rparr>)
                   else map_of (regions self) k))"
proof -
  let ?keys = "sort (map fst (regions self))"
  from ok have d: "distinct (map fst (regions self))" by (simp add: registry_ok_def)
  have all: "\<forall>k \<in> set ?keys. \<exists>r. map_of (regions self) k = Some r"
  proof
    fix k assume "k \<in> set ?keys"
    then show "\<exists>r. map_of (regions self) k = Some r"
      by (cases "map_of (regions self) k") (auto simp: map_of_eq_None_iff)
  qed
  from p have "filter (\<lambda>(k, r). status r = PENDING) (regions self) \<noteq> []"
    by (auto simp: pending_count_def)
  then obtain k r where kr: "(k, r) \<in> set (regions self)" "status r = PENDING"
    by (auto simp: filter_empty_conv)
  with d have "map_of (regions self) k = Some r" by simp
  moreover from kr have "k \<in> set ?keys" by (auto intro: rev_image_eqI)
  ultimately have ex:
    "\<exists>k \<in> set ?keys. \<exists>r. map_of (regions self) k = Some r \<and> status r = PENDING"
    using kr(2) by blast
  from claim_loop_some [OF all ex, of w t t'] obtain k r0 self' where
    c: "map_of (regions self) k = Some r0" "status r0 = PENDING"
       "claim_loop ?keys w t t' self =
          Inr (self', Some (r0\<lparr>status := SCANNING, assigned_worker := w, started_at := t\<rparr>))"
       "regions self' =
          store_region k (r0\<lparr>status := SCANNING, assigned_worker := w, started_at := t\<rparr>)
            (regions self)"
    by blast
  let ?r = "r0\<lparr>status := SCANNING, assigned_worker := w, started_at := t\<rparr>"
  have k: "k = RegionState_key r0" using ok c(1) by (rule registry_entry)
  have kin: "k \<in> fst ` set (regions self)"
    using c(1) by (auto dest: map_of_SomeD intro: rev_image_eqI)
  have m: "map_of (regions self') k' = (if k' = k then Some ?r else map_of (regions self) k')" for k'
    using kin by (simp add: c(4) map_of_store_region)
  have ok': "registry_ok self'"
  proof -
    have "distinct (map fst (regions self'))"
      using d by (simp add: c(4) map_fst_store_region)
    moreover have "k' = RegionState_key r'" if "(k', r') \<in> set (regions self')" for k' r'
    proof -
      from that have "(k', r') \<in> set (regions self) \<or> (k' = k \<and> r' = ?r)"
        by (auto simp: c(4) store_region_def split: if_splits)
      then show ?thesis
        using ok k by (auto simp: registry_ok_def list_all_iff RegionState_key_claimed)
    qed
    ultimately show ?thesis by (auto simp: registry_ok_def list_all_iff)
  qed
  have pc: "Suc (pending_count self') = pending_count self"
    unfolding pending_count_def c(4)
    using d c(1,2) by (intro pending_after_store) simp_all
  from c k m ok' pc show ?thesis
    unfolding get_next_region_def by blast
qed

lemma length_claimed: "length (claimed xs) = length (filter (\<lambda>x. x \<noteq> None) xs)"
  by (induction xs rule: claimed.induct) simp_all

text \<open>
  C3. \<open>N\<close> calls of \<open>get_next_region\<close>, in the order in which they hold the lock, on a
  registry with \<open>M\<close> PENDING regions: every call returns; exactly \<open>min N M\<close> calls return a
  region; the returned regions have distinct keys; a call that returns a region has
  taken a region that was PENDING, set it to SCANNING with the caller as
  \<open>assigned_worker\<close>, and that region is still stored so at the end of the sequence, so
  no later call has given it to another worker; regions that no call returned are as
  they were.
\<close>

theorem get_next_region_claims:
  "registry_ok self \<Longrightarrow>
   \<exists>self' results.
     run_calls calls self = Inr (self', results) \<and>
     length results = length calls \<and>
     length (claimed results) = min (length calls) (pending_count self) \<and>
     distinct (map RegionState_key (claimed results)) \<and>
     (\<forall>w t t' r. ((w, t, t'), Some r) \<in> set (zip calls results) \<longrightarrow>
        (\<exists>r0. map_of (regions self) (RegionState_key r) = Some r0 \<and> status r0 = PENDING \<and>
              r = r0\<lparr>status := SCANNING, assigned_worker := w, started_at := t\<rparr>) \<and>
        map_of (regions self') (RegionState_key r) = Some r) \<and>
     (\<forall>k. k \<notin> RegionState_key ` set (claimed results) \<longrightarrow>
        map_of (regions self') k = map_of (regions self) k) \<and>
     pending_count self' = pending_count self - min (length calls) (pending_count self) \<and>
     registry_ok self'"
proof (induction calls arbitrary: self)
  case Nil
  then show ?case by simp
next
  case (Cons call calls)
  obtain w t t' where call: "call = (w, t, t')" by (cases call)
  show ?case
  proof (cases "pending_count self = 0")
    case True
    from get_next_region_none [OF Cons.prems True, of w t t']
    have step: "get_next_region self w t t' = Inr (self, None)" .
    from Cons.IH [OF Cons.prems] obtain self' results where
      ih: "run_calls calls self = Inr (self', results)"
        "length results = length calls"
        "length (claimed results) = min (length calls) (pending_count self)"
        "distinct (map RegionState_key (claimed results))"
        "\<forall>w t t' r. ((w, t, t'), Some r) \<in> set (zip calls results) \<longrightarrow>
          (\<exists>r0. map_of (regions self) (RegionState_key r) = Some r0 \<and> status r0 = PENDING \<and>
                r = r0\<lparr>status := SCANNING, assigned_worker := w, started_at := t\<rparr>) \<and>
          map_of (regions self') (RegionState_key r) = Some r"
        "\<forall>k. k \<notin> RegionState_key ` set (claimed results) \<longrightarrow>
          map_of (regions self') k = map_of (regions self) k"
        "pending_count self' = pending_count self - min (length calls) (pending_count self)"
        "registry_ok self'"
      by blast
    have run: "run_calls (call # calls) self = Inr (self', None # results)"
      using step ih(1) by (simp add: call)
    have l2: "length (None # results) = length (call # calls)"
      using ih(2) by simp
    have len: "length (claimed (None # results)) =
        min (length (call # calls)) (pending_count self)"
      using ih(3) True by simp
    have dist: "distinct (map RegionState_key (claimed (None # results)))"
      using ih(4) by simp
    have each: "\<forall>w' u u' r. ((w', u, u'), Some r) \<in> set (zip (call # calls) (None # results)) \<longrightarrow>
          (\<exists>r0. map_of (regions self) (RegionState_key r) = Some r0 \<and> status r0 = PENDING \<and>
                r = r0\<lparr>status := SCANNING, assigned_worker := w', started_at := u\<rparr>) \<and>
          map_of (regions self') (RegionState_key r) = Some r"
      using ih(5) by simp
    have rest: "\<forall>k. k \<notin> RegionState_key ` set (claimed (None # results)) \<longrightarrow>
          map_of (regions self') k = map_of (regions self) k"
      using ih(6) by simp
    have pc: "pending_count self' =
        pending_count self - min (length (call # calls)) (pending_count self)"
      using ih(7) True by simp
    show ?thesis
      unfolding run
      by (rule exI [of _ self'], rule exI [of _ "None # results"])
         (use ih(8) l2 len dist each rest pc in blast)
  next
    case False
    then have pos: "0 < pending_count self" by simp
    from get_next_region_some [OF Cons.prems pos, of w t t'] obtain r0 self1 where
      st: "map_of (regions self) (RegionState_key r0) = Some r0" "status r0 = PENDING"
        "get_next_region self w t t' =
           Inr (self1, Some (r0\<lparr>status := SCANNING, assigned_worker := w, started_at := t\<rparr>))"
        "registry_ok self1" "Suc (pending_count self1) = pending_count self"
        "\<forall>k. map_of (regions self1) k =
               (if k = RegionState_key r0
                then Some (r0\<lparr>status := SCANNING, assigned_worker := w, started_at := t\<rparr>)
                else map_of (regions self) k)"
      by blast
    let ?r = "r0\<lparr>status := SCANNING, assigned_worker := w, started_at := t\<rparr>"
    let ?k = "RegionState_key r0"
    have kr: "RegionState_key ?r = ?k" by (rule RegionState_key_claimed)
    from Cons.IH [OF st(4)] obtain self' results where
      ih: "run_calls calls self1 = Inr (self', results)"
        "length results = length calls"
        "length (claimed results) = min (length calls) (pending_count self1)"
        "distinct (map RegionState_key (claimed results))"
        "\<forall>w t t' r. ((w, t, t'), Some r) \<in> set (zip calls results) \<longrightarrow>
          (\<exists>r0. map_of (regions self1) (RegionState_key r) = Some r0 \<and> status r0 = PENDING \<and>
                r = r0\<lparr>status := SCANNING, assigned_worker := w, started_at := t\<rparr>) \<and>
          map_of (regions self') (RegionState_key r) = Some r"
        "\<forall>k. k \<notin> RegionState_key ` set (claimed results) \<longrightarrow>
          map_of (regions self') k = map_of (regions self1) k"
        "pending_count self' = pending_count self1 - min (length calls) (pending_count self1)"
        "registry_ok self'"
      by blast
    have run: "run_calls (call # calls) self = Inr (self', Some ?r # results)"
      using st(3) ih(1) by (simp add: call)
    have later: "RegionState_key r \<noteq> ?k \<and>
        (\<exists>r0. map_of (regions self) (RegionState_key r) = Some r0 \<and> status r0 = PENDING \<and>
              r = r0\<lparr>status := SCANNING, assigned_worker := w', started_at := u\<rparr>) \<and>
        map_of (regions self') (RegionState_key r) = Some r"
      if "((w', u, u'), Some r) \<in> set (zip calls results)" for w' u u' r
    proof -
      from ih(5) that obtain r1 where
        r1: "map_of (regions self1) (RegionState_key r) = Some r1" "status r1 = PENDING"
          "r = r1\<lparr>status := SCANNING, assigned_worker := w', started_at := u\<rparr>"
          "map_of (regions self') (RegionState_key r) = Some r"
        by blast
      have ne: "RegionState_key r \<noteq> ?k"
      proof
        assume "RegionState_key r = ?k"
        with st(6) r1(1) have "r1 = ?r" by simp
        with r1(2) show False by simp
      qed
      with st(6) r1(1) have "map_of (regions self) (RegionState_key r) = Some r1" by simp
      with ne r1 show ?thesis by blast
    qed
    have notin: "?k \<notin> RegionState_key ` set (claimed results)"
    proof
      assume "?k \<in> RegionState_key ` set (claimed results)"
      then obtain r where r: "r \<in> set (claimed results)" "RegionState_key r = ?k" by auto
      then have "Some r \<in> set results"
        by (induction results rule: claimed.induct) auto
      then obtain i where i: "i < length results" "results ! i = Some r"
        by (auto simp: in_set_conv_nth)
      then have "(calls ! i, Some r) \<in> set (zip calls results)"
        using ih(2) by (auto simp: set_zip)
      then obtain w' u u' where "((w', u, u'), Some r) \<in> set (zip calls results)"
        by (cases "calls ! i") auto
      from later [OF this] r(2) show False by simp
    qed
    have first: "map_of (regions self') ?k = Some ?r"
      using ih(6) notin st(6) by simp
    have len: "length (claimed (Some ?r # results)) =
        min (length (call # calls)) (pending_count self)"
      using ih(3) st(5) by simp
    have dist: "distinct (map RegionState_key (claimed (Some ?r # results)))"
      using ih(4) notin kr by simp
    have each: "\<forall>w' u u' r. ((w', u, u'), Some r) \<in> set (zip (call # calls) (Some ?r # results)) \<longrightarrow>
          (\<exists>r0. map_of (regions self) (RegionState_key r) = Some r0 \<and> status r0 = PENDING \<and>
                r = r0\<lparr>status := SCANNING, assigned_worker := w', started_at := u\<rparr>) \<and>
          map_of (regions self') (RegionState_key r) = Some r"
      using later st(1,2) first kr by (auto simp: call)
    have rest: "\<forall>k. k \<notin> RegionState_key ` set (claimed (Some ?r # results)) \<longrightarrow>
          map_of (regions self') k = map_of (regions self) k"
      using ih(6) st(6) kr by simp
    have pc: "pending_count self' =
        pending_count self - min (length (call # calls)) (pending_count self)"
      using ih(7) st(5) by simp
    have l2: "length (Some ?r # results) = length (call # calls)"
      using ih(2) by simp
    show ?thesis
      unfolding run
      by (rule exI [of _ self'], rule exI [of _ "Some ?r # results"])
         (use ih(8) l2 len dist each rest pc in blast)
  qed
qed

theorem get_next_region_claims_witness:
  "\<exists>self' results.
     run_calls [(''w1'', 1 :: nat, 2), (''w2'', 3, 4), (''w3'', 5, 6)]
       \<lparr>regions =
          [(''22_16'', \<lparr>rs_region_x = 22, rs_region_y = 16, status = PENDING, total_cells = 65536,
                        scanned_cells = 0, assigned_worker = [], started_at = 0,
                        completed_at = 0, error = []\<rparr>),
           (''21_16'', \<lparr>rs_region_x = 21, rs_region_y = 16, status = PENDING, total_cells = 65536,
                        scanned_cells = 0, assigned_worker = [], started_at = 0,
                        completed_at = 0, error = []\<rparr>),
           (''9_1'', \<lparr>rs_region_x = 9, rs_region_y = 1, status = COMPLETE, total_cells = 65536,
                      scanned_cells = 65536, assigned_worker = ''w0'', started_at = 0,
                      completed_at = 0, error = []\<rparr>)],
        db_regions = Map.empty, event_log = []\<rparr> = Inr (self', results) \<and>
     length results = 3 \<and> length (claimed results) = 2 \<and>
     distinct (map RegionState_key (claimed results)) \<and> pending_count self' = 0"
proof -
  let ?reg = "\<lparr>regions =
          [(''22_16'', \<lparr>rs_region_x = 22, rs_region_y = 16, status = PENDING, total_cells = 65536,
                        scanned_cells = 0, assigned_worker = [], started_at = 0 :: nat,
                        completed_at = 0, error = []\<rparr>),
           (''21_16'', \<lparr>rs_region_x = 21, rs_region_y = 16, status = PENDING, total_cells = 65536,
                        scanned_cells = 0, assigned_worker = [], started_at = 0,
                        completed_at = 0, error = []\<rparr>),
           (''9_1'', \<lparr>rs_region_x = 9, rs_region_y = 1, status = COMPLETE, total_cells = 65536,
                      scanned_cells = 65536, assigned_worker = ''w0'', started_at = 0,
                      completed_at = 0, error = []\<rparr>)],
        db_regions = Map.empty, event_log = []\<rparr>"
  have s: "nat_str 22 = ''22'' \<and> nat_str 16 = ''16'' \<and> nat_str 21 = ''21'' \<and>
      nat_str 9 = ''9'' \<and> nat_str (Suc 0) = ''1''"
    by code_simp
  have ok: "registry_ok ?reg"
    by (simp add: registry_ok_def RegionState_key_def int_str_def s)
  have pc: "pending_count ?reg = 2"
    by (simp add: pending_count_def)
  from get_next_region_claims [OF ok, of "[(''w1'', 1, 2), (''w2'', 3, 4), (''w3'', 5, 6)]"]
  show ?thesis
    unfolding pc by (simp only: list.size min_def) auto
qed

section \<open>The unblock sweep\<close>

lemma py_assign_in_range:
  assumes "0 \<le> i" "i < int (length xs)"
  shows "py_assign xs i v = Inr (xs[nat i := v])"
  using assms by (simp add: py_assign_def)

lemma unblocked_eq:
  "unblocked c = (if nswe c AND NSWE_ALL \<noteq> NSWE_ALL
                  then \<lparr>height = height c, nswe = NSWE_ALL_L2D\<rparr> else c)"
  by (simp add: unblocked_def blocked_def)

text \<open>The stack after the first \<open>i\<close> layers have been visited.\<close>

lemma partly_unblocked_nth:
  assumes "i < length layers"
  shows "(map unblocked (take i layers) @ drop i layers) ! i = layers ! i"
  using assms by (simp add: nth_append)

lemma partly_unblocked_step:
  assumes "i < length layers"
  shows "(map unblocked (take i layers) @ drop i layers)[i := unblocked (layers ! i)] =
         map unblocked (take (Suc i) layers) @ drop (Suc i) layers"
proof -
  have "drop i layers = layers ! i # drop (Suc i) layers"
    using assms by (simp add: Cons_nth_drop_Suc)
  then show ?thesis
    using assms by (simp add: take_Suc_conv_app_nth list_update_append)
qed

lemma unblock_layer_step:
  assumes j: "0 \<le> lx * 8 + ly" "nat (lx * 8 + ly) < length cl"
    and cur: "cl ! nat (lx * 8 + ly) = map unblocked (take i layers) @ drop i layers"
    and i: "i < length layers"
  shows "unblock_layer lx ly i (cl, n) =
           Inr (cl[nat (lx * 8 + ly) := map unblocked (take (Suc i) layers) @ drop (Suc i) layers],
                n + (if blocked (layers ! i) then 1 else 0))"
proof -
  let ?j = "nat (lx * 8 + ly)"
  let ?cur = "map unblocked (take i layers) @ drop i layers"
  have idx: "py_index cl (lx * 8 + ly) = Inr ?cur"
    using j cur by (simp add: py_index_in_range)
  have c: "?cur ! i = layers ! i" using i by (rule partly_unblocked_nth)
  have lc: "length ?cur = length layers" by simp
  show ?thesis
  proof (cases "blocked (layers ! i)")
    case True
    then have u: "unblocked (layers ! i) = \<lparr>height = height (layers ! i), nswe = NSWE_ALL_L2D\<rparr>"
      by (simp add: unblocked_def)
    have a1: "py_assign ?cur (int i) \<lparr>height = height (layers ! i), nswe = NSWE_ALL_L2D\<rparr> =
        Inr (map unblocked (take (Suc i) layers) @ drop (Suc i) layers)"
      using i partly_unblocked_step [OF i] by (simp add: py_assign_def u)
    have a2: "py_assign cl (lx * 8 + ly) v = Inr (cl[?j := v])" for v
      using j by (intro py_assign_in_range) simp_all
    from True have b: "nswe (layers ! i) AND NSWE_ALL \<noteq> NSWE_ALL" by (simp add: blocked_def)
    show ?thesis
      using True b
      by (simp add: unblock_layer_def BLOCK_CELLS_Y_def idx c Let_def multilayer_set_cell_def a1 a2)
  next
    case False
    then have u: "unblocked (layers ! i) = layers ! i" by (simp add: unblocked_def)
    have "?cur[i := layers ! i] = map unblocked (take (Suc i) layers) @ drop (Suc i) layers"
      using partly_unblocked_step [OF i] u by simp
    moreover have "?cur[i := layers ! i] = ?cur"
      using c by (metis list_update_id)
    ultimately have e: "cl[?j := map unblocked (take (Suc i) layers) @ drop (Suc i) layers] = cl"
      using cur by (metis list_update_id)
    from False have b: "nswe (layers ! i) AND NSWE_ALL = NSWE_ALL" by (simp add: blocked_def)
    show ?thesis
      using False b
      by (simp add: unblock_layer_def BLOCK_CELLS_Y_def idx c Let_def e)
  qed
qed

lemma unblock_layers_loop:
  assumes j: "0 \<le> lx * 8 + ly" "nat (lx * 8 + ly) < length cl"
  shows "k = length layers - i \<Longrightarrow> i \<le> length layers \<Longrightarrow>
         cl ! nat (lx * 8 + ly) = map unblocked (take i layers) @ drop i layers \<Longrightarrow>
         for_each [i..<length layers] (unblock_layer lx ly) (cl, n) =
           Inr (cl[nat (lx * 8 + ly) := map unblocked layers],
                n + int (length (filter blocked (drop i layers))))"
  using j
proof (induction k arbitrary: i cl n)
  case 0
  then have "i = length layers" by simp
  with 0 show ?case by (simp add: list_update_same_conv [THEN iffD2])
next
  case (Suc k)
  then have i: "i < length layers" by simp
  let ?j = "nat (lx * 8 + ly)"
  let ?cl = "cl[?j := map unblocked (take (Suc i) layers) @ drop (Suc i) layers]"
  have step: "unblock_layer lx ly i (cl, n) =
      Inr (?cl, n + (if blocked (layers ! i) then 1 else 0))"
    using Suc.prems(4,5,3) i by (rule unblock_layer_step)
  have "for_each [Suc i..<length layers] (unblock_layer lx ly)
          (?cl, n + (if blocked (layers ! i) then 1 else 0)) =
        Inr (?cl[?j := map unblocked layers],
             n + (if blocked (layers ! i) then 1 else 0) +
             int (length (filter blocked (drop (Suc i) layers))))"
    using Suc.prems i by (intro Suc.IH) simp_all
  moreover have "drop i layers = layers ! i # drop (Suc i) layers"
    using i by (simp add: Cons_nth_drop_Suc)
  ultimately show ?case
    using i step by (simp add: upt_conv_Cons)
qed

lemma in_region_indices:
  assumes "in_region p"
  shows "block_of p < 65536" "cell_of p < 64"
    "0 \<le> fst p div 8 * 256 + snd p div 8" "0 \<le> fst p mod 8 * 8 + snd p mod 8"
  using assms block_index_range [of "fst p" "snd p"] cell_index_range [of "fst p" "snd p"]
  by (simp_all add: in_region_def block_of_def cell_of_def)

lemma put_block_same:
  "region\<lparr>blocks := (blocks region)[i := blocks region ! i]\<rparr> = region"
  by simp

lemma unblock_cell_outside:
  assumes "\<not> in_region (x, y)"
  shows "unblock_cell x y (region, n) = Inr (region, n)"
  using assms by (auto simp: unblock_cell_def in_region_def l2d_consts)

lemma unblock_cell_inside:
  assumes shape: "region_shape region" and p: "in_region (x, y)"
  shows "unblock_cell x y (region, n) =
           Inr (region\<lparr>blocks := (blocks region)[block_of (x, y) :=
                          unblock_block (blocks region ! block_of (x, y)) (cell_of (x, y))]\<rparr>,
                n + int (length (filter blocked (cell_stack region (x, y)))))"
proof -
  let ?i = "block_of (x, y)"
  let ?j = "cell_of (x, y)"
  let ?b = "blocks region ! ?i"
  note r = in_region_indices [OF p]
  from p have xy: "0 \<le> x" "x < 2048" "0 \<le> y" "y < 2048" by (simp_all add: in_region_def)
  note g = get_block_in_range [OF shape xy]
  have g1: "get_block region (x div 8) (y div 8) = Inr ?b"
    using g(1) by (simp add: block_of_def l2d_consts)
  have sh: "block_shape ?b" using g(2) by (simp add: block_of_def)
  have guard: "\<not> (x < 0 \<or> y < 0 \<or> x \<ge> REGION_CELLS_X \<or> y \<ge> REGION_CELLS_Y)"
    using xy by (simp add: l2d_consts)
  have pb: "put_block region (x div 8) (y div 8) b =
      region\<lparr>blocks := (blocks region)[?i := b]\<rparr>" for b
    by (simp add: put_block_def block_of_def l2d_consts)
  show ?thesis
  proof (cases ?b)
    case (BlockFlat h)
    then have keep: "region\<lparr>blocks := (blocks region)[?i := BlockFlat h]\<rparr> = region"
      by (metis put_block_same)
    from BlockFlat show ?thesis
      using guard g1
      by (simp add: unblock_cell_def Let_def cell_stack_def blocked_def keep l2d_consts)
  next
    case (BlockComplex cells)
    with sh have len: "length cells = 64" by simp
    have old: "py_index cells (x mod 8 * 8 + y mod 8) = Inr (cells ! ?j)"
      using r len by (simp add: py_index_in_range cell_of_def)
    have set: "py_assign cells (x mod 8 * 8 + y mod 8) v = Inr (cells[?j := v])" for v
      using r len by (simp add: py_assign_in_range cell_of_def)
    show ?thesis
    proof (cases "blocked (cells ! ?j)")
      case True
      then have b: "nswe (cells ! ?j) AND NSWE_ALL \<noteq> NSWE_ALL" by (simp add: blocked_def)
      from True have u: "unblocked (cells ! ?j) = \<lparr>height = height (cells ! ?j), nswe = NSWE_ALL_L2D\<rparr>"
        by (simp add: unblocked_def)
      show ?thesis
        using guard g1 BlockComplex True b
        by (simp add: unblock_cell_def Let_def cell_stack_def l2d_consts old set
              complex_set_cell_def pb u)
    next
      case False
      then have b: "nswe (cells ! ?j) AND NSWE_ALL = NSWE_ALL" by (simp add: blocked_def)
      from False have u: "unblocked (cells ! ?j) = cells ! ?j" by (simp add: unblocked_def)
      have "cells[?j := cells ! ?j] = cells" by simp
      with BlockComplex
      have "region\<lparr>blocks := (blocks region)[?i := BlockComplex (cells[?j := cells ! ?j])]\<rparr> = region"
        by (metis put_block_same)
      then show ?thesis
        using guard g1 BlockComplex False b
        by (simp add: unblock_cell_def Let_def cell_stack_def l2d_consts old u)
    qed
  next
    case (BlockMultilayer cl)
    with sh have len: "length cl = 64" by simp
    have lay: "py_index cl (x mod 8 * 8 + y mod 8) = Inr (cl ! ?j)"
      using r len by (simp add: py_index_in_range cell_of_def)
    have j: "0 \<le> x mod 8 * 8 + y mod 8" "nat (x mod 8 * 8 + y mod 8) < length cl"
      using r len by (simp_all add: cell_of_def)
    have "for_each [0..<length (cl ! ?j)] (unblock_layer (x mod 8) (y mod 8)) (cl, n) =
        Inr (cl[nat (x mod 8 * 8 + y mod 8) := map unblocked (cl ! ?j)],
             n + int (length (filter blocked (drop 0 (cl ! ?j)))))"
      using j by (intro unblock_layers_loop [where k = "length (cl ! ?j)"]) (simp_all add: cell_of_def)
    then have loop: "for_each [0..<length (cl ! ?j)] (unblock_layer (x mod 8) (y mod 8)) (cl, n) =
        Inr (cl[?j := map unblocked (cl ! ?j)], n + int (length (filter blocked (cl ! ?j))))"
      by (simp add: cell_of_def)
    show ?thesis
      using guard g1 BlockMultilayer
      by (simp add: unblock_cell_def Let_def cell_stack_def l2d_consts lay loop pb)
  qed
qed

lemma coords_of_inj:
  assumes "in_region p" "in_region q" "block_of p = block_of q" "cell_of p = cell_of q"
  shows "p = q"
proof -
  note ip = in_region_indices [OF assms(1)] and iq = in_region_indices [OF assms(2)]
  from assms(3) ip(3) iq(3)
  have b: "fst p div 8 * 256 + snd p div 8 = fst q div 8 * 256 + snd q div 8"
    unfolding block_of_def by (metis nat_eq_iff2)
  from assms(4) ip(4) iq(4)
  have c: "fst p mod 8 * 8 + snd p mod 8 = fst q mod 8 * 8 + snd q mod 8"
    unfolding cell_of_def by (metis nat_eq_iff2)
  from assms(1,2) have "0 \<le> snd p" "snd p < 2048" "0 \<le> snd q" "snd q < 2048"
    by (simp_all add: in_region_def)
  then have r: "0 \<le> snd p div 8" "snd p div 8 < 256" "0 \<le> snd q div 8" "snd q div 8 < 256"
    by simp_all
  have m: "0 \<le> snd p mod 8" "snd p mod 8 < 8" "0 \<le> snd q mod 8" "snd q mod 8 < 8" by simp_all
  from b r have b1: "fst p div 8 = fst q div 8" by linarith
  with b have b2: "snd p div 8 = snd q div 8" by simp
  from c m have c1: "fst p mod 8 = fst q mod 8" by linarith
  with c have c2: "snd p mod 8 = snd q mod 8" by simp
  have "fst p = fst q" using b1 c1 by (metis div_mult_mod_eq)
  moreover have "snd p = snd q" using b2 c2 by (metis div_mult_mod_eq)
  ultimately show ?thesis by (simp add: prod_eq_iff)
qed

lemma unblocked_flat_cell:
  "unblocked \<lparr>height = h, nswe = NSWE_ALL_L2D\<rparr> = \<lparr>height = h, nswe = NSWE_ALL_L2D\<rparr>"
  by (simp add: unblocked_def blocked_def l2d_consts)

lemma block_shape_unblock_block: "block_shape (unblock_block b j) = block_shape b"
  by (cases b) simp_all

lemma same_class_unblock_block: "same_class b (unblock_block b j)"
  by (cases b) simp_all

lemma same_class_refl: "same_class b b"
  by (cases b) simp_all

lemma same_class_trans: "same_class a b \<Longrightarrow> same_class b c \<Longrightarrow> same_class a c"
  by (cases a; cases b; cases c) simp_all

lemma block_stack_unblock_block:
  assumes "block_shape b" "j < 64" "j' < 64"
  shows "block_stack (unblock_block b j) j' =
           (if j' = j then map unblocked (block_stack b j) else block_stack b j')"
  using assms by (cases b) (simp_all add: unblocked_flat_cell)

lemma region_shape_visit:
  assumes "region_shape region"
  shows "region_shape (visit region p)"
proof -
  from assms have len: "length (blocks region) = 65536"
    and all: "\<forall>i<65536. block_shape (blocks region ! i)"
    by (simp_all add: region_shape_def list_all_length)
  have "block_shape ((blocks region)[block_of p :=
      unblock_block (blocks region ! block_of p) (cell_of p)] ! i)" if "i < 65536" for i
    using that all len by (cases "i = block_of p") (simp_all add: block_shape_unblock_block)
  then show ?thesis
    using len by (simp add: region_shape_def visit_def list_all_length)
qed

lemma cell_stack_visit:
  assumes "region_shape region" "in_region p" "in_region q"
  shows "cell_stack (visit region p) q =
           (if q = p then map unblocked (cell_stack region p) else cell_stack region q)"
proof -
  from assms(1) have len: "length (blocks region) = 65536"
    and all: "\<forall>i<65536. block_shape (blocks region ! i)"
    by (simp_all add: region_shape_def list_all_length)
  note ip = in_region_indices [OF assms(2)] and iq = in_region_indices [OF assms(3)]
  show ?thesis
  proof (cases "block_of q = block_of p")
    case True
    have "cell_of q = cell_of p \<longleftrightarrow> q = p"
      using coords_of_inj [OF assms(3,2) True] by auto
    then show ?thesis
      using True ip iq len all
      by (simp add: cell_stack_def visit_def block_stack_unblock_block)
  next
    case False
    then have "q \<noteq> p" by auto
    with False show ?thesis
      by (simp add: cell_stack_def visit_def)
  qed
qed

lemma same_class_visit:
  assumes "i < length (blocks region)"
  shows "same_class (blocks region ! i) (blocks (visit region p) ! i)"
  using assms
  by (cases "i = block_of p") (simp_all add: visit_def same_class_unblock_block same_class_refl)

lemma sweep_cells:
  "region_shape region \<Longrightarrow> distinct ps \<Longrightarrow>
   \<exists>region'.
     for_each ps (\<lambda>p. unblock_cell (fst p) (snd p)) (region, n) =
       Inr (region', n + sum_list (map (\<lambda>p. int (length (filter blocked (cell_stack region p))))
                            (filter in_region ps))) \<and>
     region_shape region' \<and>
     (\<forall>q. in_region q \<longrightarrow>
        cell_stack region' q =
          (if q \<in> set ps then map unblocked (cell_stack region q) else cell_stack region q)) \<and>
     (\<forall>i<65536. same_class (blocks region ! i) (blocks region' ! i))"
proof (induction ps arbitrary: region n)
  case Nil
  then show ?case by (auto simp: same_class_refl)
next
  case (Cons p ps)
  from Cons.prems have d: "distinct ps" and np: "p \<notin> set ps" by simp_all
  show ?case
  proof (cases "in_region p")
    case False
    then have step: "unblock_cell (fst p) (snd p) (region, n) = Inr (region, n)"
      using unblock_cell_outside [of "fst p" "snd p"] by simp
    from Cons.IH [OF Cons.prems(1) d, of n] obtain region' where
      ih: "for_each ps (\<lambda>p. unblock_cell (fst p) (snd p)) (region, n) =
             Inr (region', n + sum_list (map (\<lambda>p. int (length (filter blocked (cell_stack region p))))
                                  (filter in_region ps)))"
        "region_shape region'"
        "\<forall>q. in_region q \<longrightarrow>
           cell_stack region' q =
             (if q \<in> set ps then map unblocked (cell_stack region q) else cell_stack region q)"
        "\<forall>i<65536. same_class (blocks region ! i) (blocks region' ! i)"
      by blast
    have "\<forall>q. in_region q \<longrightarrow>
           cell_stack region' q =
             (if q \<in> set (p # ps) then map unblocked (cell_stack region q) else cell_stack region q)"
      using ih(3) False by auto
    with ih step False show ?thesis by auto
  next
    case True
    let ?k = "int (length (filter blocked (cell_stack region p)))"
    have step: "unblock_cell (fst p) (snd p) (region, n) = Inr (visit region p, n + ?k)"
      using unblock_cell_inside [OF Cons.prems(1), of "fst p" "snd p" n] True
      by (simp add: visit_def)
    have sh: "region_shape (visit region p)"
      using Cons.prems(1) by (rule region_shape_visit)
    from Cons.IH [OF sh d, of "n + ?k"] obtain region' where
      ih: "for_each ps (\<lambda>p. unblock_cell (fst p) (snd p)) (visit region p, n + ?k) =
             Inr (region', n + ?k +
                  sum_list (map (\<lambda>q. int (length (filter blocked (cell_stack (visit region p) q))))
                    (filter in_region ps)))"
        "region_shape region'"
        "\<forall>q. in_region q \<longrightarrow>
           cell_stack region' q =
             (if q \<in> set ps then map unblocked (cell_stack (visit region p) q)
              else cell_stack (visit region p) q)"
        "\<forall>i<65536. same_class (blocks (visit region p) ! i) (blocks region' ! i)"
      by blast
    have cs: "cell_stack (visit region p) q =
        (if q = p then map unblocked (cell_stack region p) else cell_stack region q)"
      if "in_region q" for q
      using Cons.prems(1) True that by (rule cell_stack_visit)
    have sum: "map (\<lambda>q. int (length (filter blocked (cell_stack (visit region p) q))))
                 (filter in_region ps) =
               map (\<lambda>q. int (length (filter blocked (cell_stack region q)))) (filter in_region ps)"
    proof (rule map_cong [OF refl])
      fix q assume "q \<in> set (filter in_region ps)"
      then have "in_region q" "q \<noteq> p" using np by auto
      then show "int (length (filter blocked (cell_stack (visit region p) q))) =
                 int (length (filter blocked (cell_stack region q)))"
        by (simp add: cs)
    qed
    have stacks: "\<forall>q. in_region q \<longrightarrow>
           cell_stack region' q =
             (if q \<in> set (p # ps) then map unblocked (cell_stack region q) else cell_stack region q)"
      using ih(3) cs np by auto
    have len: "length (blocks region) = 65536"
      using Cons.prems(1) by (simp add: region_shape_def)
    have cls: "\<forall>i<65536. same_class (blocks region ! i) (blocks region' ! i)"
      using ih(4) same_class_visit [of _ region p] len by (auto intro: same_class_trans)
    have run: "for_each (p # ps) (\<lambda>p. unblock_cell (fst p) (snd p)) (region, n) =
        Inr (region', n + sum_list (map (\<lambda>p. int (length (filter blocked (cell_stack region p))))
                            (filter in_region (p # ps))))"
      using step ih(1) True by (simp add: sum add.assoc)
    from run ih(2) stacks cls show ?thesis by blast
  qed
qed

lemma for_each_append:
  "for_each (xs @ ys) body s =
     (case for_each xs body s of Inl e \<Rightarrow> Inl e | Inr s' \<Rightarrow> for_each ys body s')"
  by (induction xs arbitrary: s) (auto split: sum.splits)

lemma for_each_map: "for_each (map f xs) body s = for_each xs (\<lambda>x. body (f x)) s"
  by (induction xs arbitrary: s) (auto split: sum.splits)

lemma for_each_nested:
  "for_each xs (\<lambda>a. for_each ys (\<lambda>b. body (f a b))) s =
     for_each (concat (map (\<lambda>a. map (\<lambda>b. f a b) ys) xs)) body s"
proof (induction xs arbitrary: s)
  case Nil
  then show ?case by simp
next
  case (Cons a xs)
  then show ?case
    by (simp add: for_each_append for_each_map split: sum.splits)
qed

lemma unblock_as_sweep:
  "unblock region cx cy radius =
     for_each (concat (map (\<lambda>dx. map (\<lambda>dy. (cx + dx, cy + dy)) [- radius..radius])
                 [- radius..radius]))
       (\<lambda>p. unblock_cell (fst p) (snd p)) (region, 0)"
  unfolding unblock_def
  using for_each_nested [of "[- radius..radius]" "[- radius..radius]"
      "\<lambda>p. unblock_cell (fst p) (snd p)" "\<lambda>dx dy. (cx + dx, cy + dy)" "(region, 0)"]
  by simp

lemma distinct_window:
  "distinct (concat (map (\<lambda>dx. map (\<lambda>dy. (cx + dx, cy + dy)) [- radius..radius])
               [- radius..radius :: int]))"
proof -
  have e: "concat (map (\<lambda>dx. map (\<lambda>dy. (cx + dx, cy + dy)) [- radius..radius]) [- radius..radius]) =
        map (\<lambda>(dx, dy). (cx + dx, cy + dy)) (List.product [- radius..radius] [- radius..radius])"
    by (simp add: product_concat_map map_concat comp_def)
  have "inj_on (\<lambda>(dx, dy). (cx + dx, cy + dy)) A" for A :: "(int \<times> int) set"
    by (auto simp: inj_on_def)
  then show ?thesis
    unfolding e by (simp add: distinct_map distinct_product)
qed

lemma set_visited:
  "p \<in> set (visited cx cy radius) \<longleftrightarrow>
     in_region p \<and> cx - radius \<le> fst p \<and> fst p \<le> cx + radius \<and>
     cy - radius \<le> snd p \<and> snd p \<le> cy + radius"
proof -
  have "p \<in> set (concat (map (\<lambda>dx. map (\<lambda>dy. (cx + dx, cy + dy)) [- radius..radius])
               [- radius..radius])) \<longleftrightarrow>
        (\<exists>dx dy. - radius \<le> dx \<and> dx \<le> radius \<and> - radius \<le> dy \<and> dy \<le> radius \<and>
                 p = (cx + dx, cy + dy))"
    by (auto simp: image_iff)
  also have "\<dots> \<longleftrightarrow> cx - radius \<le> fst p \<and> fst p \<le> cx + radius \<and>
     cy - radius \<le> snd p \<and> snd p \<le> cy + radius"
  proof
    assume "\<exists>dx dy. - radius \<le> dx \<and> dx \<le> radius \<and> - radius \<le> dy \<and> dy \<le> radius \<and>
                 p = (cx + dx, cy + dy)"
    then show "cx - radius \<le> fst p \<and> fst p \<le> cx + radius \<and>
        cy - radius \<le> snd p \<and> snd p \<le> cy + radius"
      by auto
  next
    assume a: "cx - radius \<le> fst p \<and> fst p \<le> cx + radius \<and>
        cy - radius \<le> snd p \<and> snd p \<le> cy + radius"
    have "p = (cx + (fst p - cx), cy + (snd p - cy))" by simp
    with a show "\<exists>dx dy. - radius \<le> dx \<and> dx \<le> radius \<and> - radius \<le> dy \<and> dy \<le> radius \<and>
                 p = (cx + dx, cy + dy)"
      by (intro exI [of _ "fst p - cx"] exI [of _ "snd p - cy"]) simp
  qed
  finally show ?thesis
    by (auto simp: visited_def)
qed

lemma distinct_visited: "distinct (visited cx cy radius)"
  unfolding visited_def by (intro distinct_filter distinct_window)

lemma get_layers_cell_stack:
  assumes "region_shape region" "in_region p"
  shows "get_layers region (fst p) (snd p) = Inr (cell_stack region p)"
proof -
  from assms(2) have xy: "0 \<le> fst p" "fst p < 2048" "0 \<le> snd p" "snd p < 2048"
    by (simp_all add: in_region_def)
  note g = get_block_in_range [OF assms(1) xy]
  note r = in_region_indices [OF assms(2)]
  let ?b = "blocks region ! block_of p"
  have sh: "block_shape ?b" using g(2) by (simp add: block_of_def)
  have "block_get_layers ?b (fst p mod 8) (snd p mod 8) = Inr (block_stack ?b (cell_of p))"
  proof (cases ?b)
    case (BlockFlat h)
    then show ?thesis by simp
  next
    case (BlockComplex cells)
    with sh r show ?thesis
      by (simp add: py_index_in_range cell_of_def BLOCK_CELLS_Y_def)
  next
    case (BlockMultilayer cl)
    with sh r show ?thesis
      by (simp add: py_index_in_range cell_of_def BLOCK_CELLS_Y_def)
  qed
  then show ?thesis
    using g(1) by (simp add: get_layers_def Let_def cell_stack_def block_of_def l2d_consts)
qed

lemma blocked_layers_cell_stack:
  assumes "region_shape region" "in_region p"
  shows "blocked_layers region p = int (length (filter blocked (cell_stack region p)))"
  using get_layers_cell_stack [OF assms] by (simp add: blocked_layers_def)

lemma unblock_sweep:
  assumes "region_shape region"
  shows "\<exists>region'.
     unblock region cx cy radius =
       Inr (region', sum_list (map (blocked_layers region) (visited cx cy radius))) \<and>
     region_shape region' \<and>
     (\<forall>p. in_region p \<longrightarrow>
        get_layers region' (fst p) (snd p) =
          Inr (if p \<in> set (visited cx cy radius) then map unblocked (cell_stack region p)
               else cell_stack region p)) \<and>
     (\<forall>i<65536. same_class (blocks region ! i) (blocks region' ! i))"
proof -
  let ?ps = "concat (map (\<lambda>dx. map (\<lambda>dy. (cx + dx, cy + dy)) [- radius..radius])
               [- radius..radius])"
  from sweep_cells [OF assms distinct_window, of cx cy radius 0] obtain region' where
    s: "for_each ?ps (\<lambda>p. unblock_cell (fst p) (snd p)) (region, 0) =
          Inr (region', 0 + sum_list (map (\<lambda>p. int (length (filter blocked (cell_stack region p))))
                                (filter in_region ?ps)))"
      "region_shape region'"
      "\<forall>q. in_region q \<longrightarrow>
         cell_stack region' q =
           (if q \<in> set ?ps then map unblocked (cell_stack region q) else cell_stack region q)"
      "\<forall>i<65536. same_class (blocks region ! i) (blocks region' ! i)"
    by blast
  have "map (\<lambda>p. int (length (filter blocked (cell_stack region p)))) (filter in_region ?ps) =
        map (blocked_layers region) (filter in_region ?ps)"
    by (rule map_cong [OF refl]) (simp add: blocked_layers_cell_stack [OF assms])
  then have sum: "0 + sum_list (map (\<lambda>p. int (length (filter blocked (cell_stack region p))))
                    (filter in_region ?ps)) =
      sum_list (map (blocked_layers region) (visited cx cy radius))"
    by (simp only: visited_def add_0)
  have run: "unblock region cx cy radius =
       Inr (region', sum_list (map (blocked_layers region) (visited cx cy radius)))"
    unfolding unblock_as_sweep s(1) sum ..
  have lay: "get_layers region' (fst p) (snd p) =
          Inr (if p \<in> set (visited cx cy radius) then map unblocked (cell_stack region p)
               else cell_stack region p)" if "in_region p" for p
    using get_layers_cell_stack [OF s(2) that] s(3) that by (simp add: visited_def)
  from run s(2) lay s(4) show ?thesis by blast
qed

lemma example_region_shape:
  "region_shape \<lparr>region_x = 22, region_y = 16,
     blocks = (replicate 65536 (BlockFlat 0))
                [2570 := BlockComplex (replicate 64 \<lparr>height = 0, nswe = 0\<rparr>)]\<rparr>"
  by (simp add: region_shape_def list_all_length nth_list_update)

lemma upto_minus3_3: "[- 3..3] = [- 3, - 2, - 1, 0, 1, 2, 3 :: int]"
  by code_simp

lemma example_visited:
  "visited 80 80 3 =
     concat (map (\<lambda>x. map (\<lambda>y. (x, y)) [77, 78, 79, 80, 81, 82, 83]) [77, 78, 79, 80, 81, 82, 83])"
  by (simp add: visited_def in_region_def upto_minus3_3 del: upto_rec_numeral)

lemma example_blocked_layers:
  "blocked_layers \<lparr>region_x = 22, region_y = 16,
     blocks = (replicate 65536 (BlockFlat 0))
                [2570 := BlockComplex (replicate 64 \<lparr>height = 0, nswe = 0\<rparr>)]\<rparr> (x, y) =
   (if 80 \<le> x \<and> x < 88 \<and> 80 \<le> y \<and> y < 88 then 1 else 0)"
  if "0 \<le> x" "x < 2048" "0 \<le> y" "y < 2048"
proof -
  let ?R = "\<lparr>region_x = 22, region_y = 16,
     blocks = (replicate 65536 (BlockFlat 0))
                [2570 := BlockComplex (replicate 64 \<lparr>height = 0, nswe = 0\<rparr>)]\<rparr>"
  have p: "in_region (x, y)" using that by (simp add: in_region_def)
  note i = in_region_indices [OF p]
  have b: "block_of (x, y) = 2570 \<longleftrightarrow> 80 \<le> x \<and> x < 88 \<and> 80 \<le> y \<and> y < 88"
  proof -
    have r: "0 \<le> y div 8" "y div 8 < 256" using that by simp_all
    have "x div 8 * 256 + y div 8 = 2570 \<longleftrightarrow> x div 8 = 10 \<and> y div 8 = 10"
    proof
      assume e: "x div 8 * 256 + y div 8 = 2570"
      with r have "x div 8 = 10" by linarith
      with e show "x div 8 = 10 \<and> y div 8 = 10" by simp
    next
      assume "x div 8 = 10 \<and> y div 8 = 10"
      then show "x div 8 * 256 + y div 8 = 2570" by simp
    qed
    also have "\<dots> \<longleftrightarrow> 80 \<le> x \<and> x < 88 \<and> 80 \<le> y \<and> y < 88"
    proof -
      have "x div 8 = 10 \<longleftrightarrow> 80 \<le> x \<and> x < 88" by arith
      moreover have "y div 8 = 10 \<longleftrightarrow> 80 \<le> y \<and> y < 88" by arith
      ultimately show ?thesis by blast
    qed
    finally show ?thesis
      using i(3) by (simp add: block_of_def nat_eq_iff)
  qed
  have "cell_stack ?R (x, y) =
      (if 80 \<le> x \<and> x < 88 \<and> 80 \<le> y \<and> y < 88 then [\<lparr>height = 0, nswe = 0\<rparr>]
       else [\<lparr>height = 0, nswe = NSWE_ALL_L2D\<rparr>])"
    using i(1,2) b by (simp add: cell_stack_def nth_list_update)
  then show ?thesis
    using blocked_layers_cell_stack [OF example_region_shape p]
    by (simp add: blocked_def l2d_consts)
qed

lemma example_count:
  "sum_list (map (blocked_layers \<lparr>region_x = 22, region_y = 16,
     blocks = (replicate 65536 (BlockFlat 0))
                [2570 := BlockComplex (replicate 64 \<lparr>height = 0, nswe = 0\<rparr>)]\<rparr>)
     (visited 80 80 3)) = 16"
  by (simp add: example_visited example_blocked_layers)

text \<open>
  C8 as stated fails on its example: with block \<open>(10, 10)\<close> the only Complex block, all
  its cells \<open>0x00\<close>, the sweep around \<open>(80, 80)\<close> with radius 3 covers the cells 77 to 83
  in both directions, and only those from 80 on lie in that block; the cells of the
  Flat blocks around it are skipped. The count is 16, not 49.
\<close>

theorem unblock_example_counterexample:
  "(case unblock \<lparr>region_x = 22, region_y = 16,
            blocks = (replicate 65536 (BlockFlat 0))
                       [2570 := BlockComplex (replicate 64 \<lparr>height = 0, nswe = 0\<rparr>)]\<rparr> 80 80 3 of
      Inl e \<Rightarrow> None
    | Inr (region', n) \<Rightarrow> Some n) = Some 16"
proof -
  from unblock_sweep [OF example_region_shape, of 80 80 3] show ?thesis
    unfolding example_count by auto
qed

text \<open>
  C8, amended. On a region as \<open>parse_l2d\<close> builds it, the sweep with centre
  \<open>(cx, cy)\<close> and radius \<open>r\<close> returns. It visits, each once, exactly the cells with
  \<open>dx, dy\<close> in \<open>[-r, r]\<close> whose coordinates lie inside \<open>[0, 2048)\<close>. Every layer of a
  visited cell whose cardinal nibble differs from \<open>0x0F\<close> gets \<open>nswe = 0xFF\<close> and keeps
  its height; all other layers and cells, and so all Flat blocks, stay as they are, and
  every block keeps its class. The count returned is the number of layers changed. In a
  region whose only non-Flat block is the Complex block \<open>(10, 10)\<close> of all-\<open>0x00\<close> cells,
  the sweep at \<open>(80, 80)\<close> with radius 3 returns 16.
\<close>

theorem unblock_area:
  assumes "region_shape region"
  shows "\<exists>region'.
     unblock region cx cy radius =
       Inr (region', sum_list (map (blocked_layers region) (visited cx cy radius))) \<and>
     region_shape region' \<and>
     distinct (visited cx cy radius) \<and>
     (\<forall>p. p \<in> set (visited cx cy radius) \<longleftrightarrow>
        in_region p \<and> cx - radius \<le> fst p \<and> fst p \<le> cx + radius \<and>
        cy - radius \<le> snd p \<and> snd p \<le> cy + radius) \<and>
     (\<forall>p. in_region p \<longrightarrow>
        (\<exists>layers. get_layers region (fst p) (snd p) = Inr layers \<and>
           get_layers region' (fst p) (snd p) =
             Inr (if p \<in> set (visited cx cy radius) then map unblocked layers else layers))) \<and>
     (\<forall>i<65536. same_class (blocks region ! i) (blocks region' ! i)) \<and>
     (\<exists>changed.
        unblock \<lparr>region_x = 22, region_y = 16,
            blocks = (replicate 65536 (BlockFlat 0))
                       [2570 := BlockComplex (replicate 64 \<lparr>height = 0, nswe = 0\<rparr>)]\<rparr> 80 80 3 =
          Inr (changed, 16))"
proof -
  from unblock_sweep [OF assms, of cx cy radius] obtain region' where
    s: "unblock region cx cy radius =
          Inr (region', sum_list (map (blocked_layers region) (visited cx cy radius)))"
      "region_shape region'"
      "\<forall>p. in_region p \<longrightarrow>
        get_layers region' (fst p) (snd p) =
          Inr (if p \<in> set (visited cx cy radius) then map unblocked (cell_stack region p)
               else cell_stack region p)"
      "\<forall>i<65536. same_class (blocks region ! i) (blocks region' ! i)"
    by blast
  have lay: "\<exists>layers. get_layers region (fst p) (snd p) = Inr layers \<and>
           get_layers region' (fst p) (snd p) =
             Inr (if p \<in> set (visited cx cy radius) then map unblocked layers else layers)"
    if "in_region p" for p
    using get_layers_cell_stack [OF assms that] s(3) that by blast
  have win: "\<forall>p. p \<in> set (visited cx cy radius) \<longleftrightarrow>
        in_region p \<and> cx - radius \<le> fst p \<and> fst p \<le> cx + radius \<and>
        cy - radius \<le> snd p \<and> snd p \<le> cy + radius"
    using set_visited by blast
  have ex: "\<exists>changed.
        unblock \<lparr>region_x = 22, region_y = 16,
            blocks = (replicate 65536 (BlockFlat 0))
                       [2570 := BlockComplex (replicate 64 \<lparr>height = 0, nswe = 0\<rparr>)]\<rparr> 80 80 3 =
          Inr (changed, 16)"
    using unblock_sweep [OF example_region_shape, of 80 80 3]
    unfolding example_count by blast
  from s(1,2,4) lay win ex distinct_visited [of cx cy radius] show ?thesis
    by blast
qed

theorem unblock_area_witness:
  "\<exists>region'.
     unblock \<lparr>region_x = 22, region_y = 16,
            blocks = (replicate 65536 (BlockFlat 0))
                       [2570 := BlockComplex (replicate 64 \<lparr>height = 0, nswe = 0\<rparr>)]\<rparr> 80 80 3 =
       Inr (region', 16) \<and>
     get_layers region' 80 83 = Inr [\<lparr>height = 0, nswe = 0xFF\<rparr>] \<and>
     get_layers region' 80 84 = Inr [\<lparr>height = 0, nswe = 0\<rparr>] \<and>
     get_layers region' 79 80 = Inr [\<lparr>height = 0, nswe = 0xFF\<rparr>]"
proof -
  let ?R = "\<lparr>region_x = 22, region_y = 16,
            blocks = (replicate 65536 (BlockFlat 0))
                       [2570 := BlockComplex (replicate 64 \<lparr>height = 0, nswe = 0\<rparr>)]\<rparr>"
  from unblock_area [OF example_region_shape, of 80 80 3] obtain region' where
    u: "unblock ?R 80 80 3 = Inr (region', sum_list (map (blocked_layers ?R) (visited 80 80 3)))"
    and win: "\<forall>p. p \<in> set (visited 80 80 3) \<longleftrightarrow>
        in_region p \<and> 80 - 3 \<le> fst p \<and> fst p \<le> 80 + 3 \<and> 80 - 3 \<le> snd p \<and> snd p \<le> 80 + 3"
    and lay: "\<forall>p. in_region p \<longrightarrow>
        (\<exists>layers. get_layers ?R (fst p) (snd p) = Inr layers \<and>
           get_layers region' (fst p) (snd p) =
             Inr (if p \<in> set (visited 80 80 3) then map unblocked layers else layers))"
    by blast
  have g: "get_layers ?R 80 83 = Inr [\<lparr>height = 0, nswe = 0\<rparr>]"
    "get_layers ?R 80 84 = Inr [\<lparr>height = 0, nswe = 0\<rparr>]"
    "get_layers ?R 79 80 = Inr [\<lparr>height = 0, nswe = 0xFF\<rparr>]"
    by (simp_all add: get_layers_def get_block_def py_index_def l2d_consts)
  have v: "(80, 83) \<in> set (visited 80 80 3)" "(80, 84) \<notin> set (visited 80 80 3)"
    "(79, 80) \<in> set (visited 80 80 3)"
    using win by (simp_all add: in_region_def)
  have r: "in_region (80, 83)" "in_region (80, 84)" "in_region (79, 80)"
    by (simp_all add: in_region_def)
  have un: "unblocked \<lparr>height = 0, nswe = 0\<rparr> = \<lparr>height = 0, nswe = 0xFF\<rparr>"
    "unblocked \<lparr>height = 0, nswe = 0xFF\<rparr> = \<lparr>height = 0, nswe = 0xFF\<rparr>"
    by (simp_all add: unblocked_def blocked_def l2d_consts)
  have L: "get_layers region' x y =
      Inr (if (x, y) \<in> set (visited 80 80 3) then map unblocked ls else ls)"
    if "get_layers ?R x y = Inr ls" "in_region (x, y)" for x y ls
    using lay [rule_format, of "(x, y)"] that by auto
  have a: "get_layers region' 80 83 = Inr [\<lparr>height = 0, nswe = 0xFF\<rparr>]"
    using L [OF g(1) r(1)] v(1) by (simp add: un)
  have b: "get_layers region' 80 84 = Inr [\<lparr>height = 0, nswe = 0\<rparr>]"
    using L [OF g(2) r(2)] v(2) by simp
  have c: "get_layers region' 79 80 = Inr [\<lparr>height = 0, nswe = 0xFF\<rparr>]"
    using L [OF g(3) r(3)] v(3) by (simp add: un)
  from u a b c show ?thesis
    unfolding example_count by blast
qed


end
